theory Spec2Isabelle
  imports Main
begin

section \<open>JavaScript values, objects and the object store\<close>

text \<open>
  Values that flow through the client: the payloads of frames, the client id, the values
  held in the metadata object. \<open>JObj\<close> is an object literal whose identity plays no role
  (a freshly parsed JSON payload); \<open>JRef a\<close> is a reference to a mutable object living in
  the store at address \<open>a\<close>, so that two holders of the same reference see each other's
  writes. Numbers are restricted to integers: only their truthiness is ever inspected.
\<close>

type_synonym addr = nat

datatype jsval =
    Undefined
  | Null
  | JBool bool
  | JNum int
  | JStr string
  | JArr "jsval list"
  | JObj "(string \<times> jsval) list"
  | JRef addr

type_synonym obj = "(string \<times> jsval) list"
type_synonym heap = "obj list"

text \<open>Exceptions that the client's methods let escape, or catch.\<close>

datatype exn =
    TypeError
  | Error string
  | Raised nat

text \<open>JavaScript truthiness, as used by \<open>if (x)\<close>, \<open>!x\<close> and \<open>a && b\<close>.\<close>

fun truthy :: "jsval \<Rightarrow> bool" where
  "truthy Undefined = False"
| "truthy Null = False"
| "truthy (JBool b) = b"
| "truthy (JNum n) = (n \<noteq> 0)"
| "truthy (JStr s) = (s \<noteq> [])"
| "truthy (JArr xs) = True"
| "truthy (JObj ps) = True"
| "truthy (JRef a) = True"

text \<open>Own properties of an object, in insertion order: \<open>o[k] = v\<close>.\<close>

fun obj_set :: "string \<Rightarrow> jsval \<Rightarrow> obj \<Rightarrow> obj" where
  "obj_set k v [] = [(k, v)]"
| "obj_set k v ((k', v') # ps) =
     (if k' = k then (k, v) # ps else (k', v') # obj_set k v ps)"

text \<open>Object spread \<open>{...dst, ...src}\<close>: the properties of \<open>src\<close> are assigned in order.\<close>

fun assign :: "obj \<Rightarrow> obj \<Rightarrow> obj" where
  "assign dst [] = dst"
| "assign dst ((k, v) # ps) = assign (obj_set k v dst) ps"

definition obj_get :: "obj \<Rightarrow> string \<Rightarrow> jsval" where
  "obj_get ps k = (case map_of ps k of None \<Rightarrow> Undefined | Some v \<Rightarrow> v)"

definition obj_at :: "heap \<Rightarrow> addr \<Rightarrow> obj" where
  "obj_at h a = (if a < length h then h ! a else [])"

text \<open>
  Property read \<open>v.k\<close> for the four names the client reads (\<open>namespace\<close>, \<open>event\<close>,
  \<open>data\<close>, \<open>clientId\<close>): a TypeError on \<open>undefined\<close> and \<open>null\<close>, the property on an
  object, \<open>undefined\<close> on primitives and arrays, which have no property of these names.
\<close>

fun get_prop :: "heap \<Rightarrow> jsval \<Rightarrow> string \<Rightarrow> exn + jsval" where
  "get_prop h Undefined k = Inl TypeError"
| "get_prop h Null k = Inl TypeError"
| "get_prop h (JObj ps) k = Inr (obj_get ps k)"
| "get_prop h (JRef a) k = Inr (obj_get (obj_at h a) k)"
| "get_prop h (JBool b) k = Inr Undefined"
| "get_prop h (JNum n) k = Inr Undefined"
| "get_prop h (JStr s) k = Inr Undefined"
| "get_prop h (JArr xs) k = Inr Undefined"

text \<open>
  \<open>JSON.stringify\<close>. The serializer walks the value and the objects it refers to, keeping
  the stack of the objects it is inside of; meeting one of them again is a cycle, and the
  serializer throws a TypeError. Its result, the JSON text, is given as the tree it denotes:
  references are replaced by the objects they point to, a property whose value is
  \<open>undefined\<close> is left out, and \<open>undefined\<close> in an array is written \<open>null\<close>.
\<close>

fun collect :: "(exn + 'a) list \<Rightarrow> exn + 'a list" where
  "collect [] = Inr []"
| "collect (Inl e # rs) = Inl e"
| "collect (Inr x # rs) = (case collect rs of Inl e \<Rightarrow> Inl e | Inr xs \<Rightarrow> Inr (x # xs))"

lemma size_in_array: "v \<in> set vs \<Longrightarrow> size v < size (JArr vs)"
  by (simp add: less_Suc_eq_le size_list_estimation')

lemma size_in_object: "p \<in> set ps \<Longrightarrow> size (snd p) < size (JObj ps)"
proof -
  assume "p \<in> set ps"
  moreover have "size (snd p) \<le> size_prod (\<lambda>x. 0) size p" by (cases p) simp
  ultimately have "size (snd p) \<le> size_list (size_prod (\<lambda>x. 0) size) ps"
    by (rule size_list_estimation')
  then show ?thesis by simp
qed

lemma stack_grows:
  "a \<notin> set st \<Longrightarrow> a < length (h :: heap) \<Longrightarrow>
   card ({..<length h} - set (a # st)) < card ({..<length h} - set st)"
proof -
  assume a: "a \<notin> set st" "a < length h"
  then have "{..<length h} - set (a # st) \<subset> {..<length h} - set st" by auto
  then show ?thesis by (intro psubset_card_mono) simp_all
qed

function serialize :: "heap \<Rightarrow> addr list \<Rightarrow> jsval \<Rightarrow> exn + jsval" where
  "serialize h st Undefined = Inr Undefined"
| "serialize h st Null = Inr Null"
| "serialize h st (JBool b) = Inr (JBool b)"
| "serialize h st (JNum n) = Inr (JNum n)"
| "serialize h st (JStr s) = Inr (JStr s)"
| "serialize h st (JArr vs) =
     (case collect (map (serialize h st) vs) of
        Inl e \<Rightarrow> Inl e
      | Inr xs \<Rightarrow> Inr (JArr (map (\<lambda>x. if x = Undefined then Null else x) xs)))"
| "serialize h st (JObj ps) =
     (case collect (map (\<lambda>p. case serialize h st (snd p) of
                               Inl e \<Rightarrow> Inl e
                             | Inr w \<Rightarrow> Inr (fst p, w)) ps) of
        Inl e \<Rightarrow> Inl e
      | Inr qs \<Rightarrow> Inr (JObj (filter (\<lambda>q. snd q \<noteq> Undefined) qs)))"
| "serialize h st (JRef a) =
     (if a \<in> set st then Inl TypeError
      else if a < length h then serialize h (a # st) (JObj (h ! a))
      else Inr (JObj []))"
  by pat_completeness auto
termination
  apply (relation "inv_image (less_than <*lex*> less_than)
          (\<lambda>(h, st, v). (card ({..<length h} - set st), size v))")
     apply (intro wf_inv_image wf_lex_prod wf_less_than)
  subgoal for h st vs x using size_in_array [of x vs] by simp
  subgoal for h st ps x using size_in_object [of x ps] by simp
  subgoal for h st a using stack_grows [of a st h] by simp
  done

section \<open>Ordered collections with deletion during iteration\<close>

text \<open>
  ECMAScript keeps the entries of a \<open>Set\<close> and of a \<open>Map\<close> in a list in insertion order;
  \<open>delete\<close> and \<open>clear\<close> overwrite an entry with the marker \<open>empty\<close> (here \<open>None\<close>) and never
  shorten the list, and an iterator walks the list by index, skipping the markers. This is
  what makes deleting during a \<open>for ... of\<close> loop well defined.
\<close>

fun live :: "'a option list \<Rightarrow> 'a list" where
  "live [] = []"
| "live (None # es) = live es"
| "live (Some x # es) = x # live es"

definition set_add :: "'a \<Rightarrow> 'a option list \<Rightarrow> 'a option list" where
  "set_add x es = (if Some x \<in> set es then es else es @ [Some x])"

definition set_delete :: "'a \<Rightarrow> 'a option list \<Rightarrow> 'a option list" where
  "set_delete x es = map (\<lambda>e. if e = Some x then None else e) es"

definition map_has :: "('k \<times> 'v) option list \<Rightarrow> 'k \<Rightarrow> bool" where
  "map_has m k = (k \<in> fst ` set (live m))"

definition map_get :: "('k \<times> 'v) option list \<Rightarrow> 'k \<Rightarrow> 'v option" where
  "map_get m k = map_of (live m) k"

definition map_put :: "'k \<Rightarrow> 'v \<Rightarrow> ('k \<times> 'v) option list \<Rightarrow> ('k \<times> 'v) option list" where
  "map_put k v m =
     (if map_has m k
      then map (\<lambda>e. case e of None \<Rightarrow> None
                     | Some (k', v') \<Rightarrow> if k' = k then Some (k, v) else Some (k', v')) m
      else m @ [Some (k, v)])"

definition map_delete :: "'k \<Rightarrow> ('k \<times> 'v) option list \<Rightarrow> ('k \<times> 'v) option list" where
  "map_delete k m =
     map (\<lambda>e. case e of None \<Rightarrow> None
              | Some (k', v') \<Rightarrow> if k' = k then None else Some (k', v')) m"

definition map_clear :: "('k \<times> 'v) option list \<Rightarrow> ('k \<times> 'v) option list" where
  "map_clear m = map (\<lambda>e. None) m"

section \<open>Callbacks, plugins, sockets\<close>

text \<open>
  A function object supplied by the application is a reference \<open>fn\<close>; what it does when
  called is given by a table \<open>code\<close> from references to bodies. A body is a sequence of
  the two effects on the client that the specification discusses for callbacks: failing
  (\<open>AThrow\<close> ends the body with an exception) and calling the unregister capability that
  \<open>registerEvent\<close> returned for a namespace, event and callback. Callbacks that register
  handlers while they run are the subject of a section of their own below.
\<close>

type_synonym fn = nat

datatype act =
    AThrow
  | AUnregister string string fn

type_synonym code = "fn \<Rightarrow> act list"

text \<open>What a callback was called with: event data, the plugin facade, or nothing.\<close>

datatype arg =
    Data jsval
  | Api
  | NoArg

datatype logline =
    ParseFailed
  | HandlerError string string
  | CleanupError string

record plugin =
  plugin_id :: "string option"
  initialize :: "fn option"
  cleanup :: "fn option"

datatype readyState = CONNECTING | OPEN | CLOSING | CLOSED

text \<open>
  A frame is the object given to \<open>JSON.stringify\<close> together with the store it is read in;
  \<open>stringify\<close> is the serializer applied to it. A socket records the texts written to it.
\<close>

type_synonym frame = "jsval \<times> heap"

definition stringify :: "frame \<Rightarrow> exn + jsval" where
  "stringify fr = serialize (snd fr) [] (fst fr)"

record socket =
  sock_url :: string
  readyState :: readyState
  sent :: "jsval list"

section \<open>The session: the fields of \<open>LibrandaClient\<close> and its environment\<close>

record session =
  url :: string
  autoReconnect :: bool
  reconnectInterval :: nat
  eventHandlers :: "string \<rightharpoonup> (string \<rightharpoonup> fn option list)"
  ws :: "nat option"
  isConnecting :: bool
  reconnectTimer :: "nat option"
  clientId :: jsval
  metadata :: addr
  onReady :: "fn option"
  plugins :: "(string \<times> plugin) option list"
  sockets :: "socket list"
  timers :: "(nat \<times> nat) list"
  timer_count :: nat
  heap :: heap
  calls :: "(fn \<times> arg) list"
  console :: "logline list"

text \<open>
  The first eleven fields are the instance fields of the class. The others are the
  environment: every socket ever created (\<open>ws\<close> is an index into \<open>sockets\<close>), the pending
  timers as pairs of handle and delay, the number of timer handles issued, the object
  store, and two traces: the callback invocations and the lines written by
  \<open>console.error\<close>.
\<close>

record options =
  opt_url :: "string option"
  opt_autoReconnect :: "bool option"
  opt_reconnectInterval :: "nat option"

text \<open>\<open>getDefaultHost\<close>: \<open>win\<close> is \<open>window.location\<close> as protocol and host, when there is a window.\<close>

definition getDefaultHost :: "(string \<times> string) option \<Rightarrow> string" where
  "getDefaultHost win =
     (case win of
        Some (protocol, host) \<Rightarrow>
          (if protocol = ''https:'' then ''wss'' else ''ws'') @ ''://'' @ host
      | None \<Rightarrow> ''ws://localhost:8080'')"

text \<open>The constructor. The metadata object \<open>{}\<close> is allocated at address 0.\<close>

definition LibrandaClient :: "(string \<times> string) option \<Rightarrow> options \<Rightarrow> session" where
  "LibrandaClient win opts =
     \<lparr> url = (case opt_url opts of
                 Some u \<Rightarrow> if u \<noteq> [] then u else getDefaultHost win
               | None \<Rightarrow> getDefaultHost win),
       autoReconnect = (opt_autoReconnect opts \<noteq> Some False),
       reconnectInterval = (case opt_reconnectInterval opts of
                 Some n \<Rightarrow> if n \<noteq> 0 then n else 5000
               | None \<Rightarrow> 5000),
       eventHandlers = Map.empty,
       ws = None,
       isConnecting = False,
       reconnectTimer = None,
       clientId = Null,
       metadata = 0,
       onReady = None,
       plugins = [],
       sockets = [],
       timers = [],
       timer_count = 0,
       heap = [[]],
       calls = [],
       console = [] \<rparr>"

section \<open>The environment's primitives: timers, sockets\<close>

text \<open>\<open>setTimeout\<close> issues a fresh handle (never 0, so always truthy) and records the timer.\<close>

definition setTimeout :: "nat \<Rightarrow> session \<Rightarrow> nat \<times> session" where
  "setTimeout delay s =
     (let t = Suc (timer_count s)
      in (t, s\<lparr>timers := timers s @ [(t, delay)], timer_count := t\<rparr>))"

definition clearTimeout :: "nat \<Rightarrow> session \<Rightarrow> session" where
  "clearTimeout t s = s\<lparr>timers := filter (\<lambda>p. fst p \<noteq> t) (timers s)\<rparr>"

definition sock_state :: "session \<Rightarrow> nat \<Rightarrow> readyState" where
  "sock_state s i = (if i < length (sockets s) then readyState (sockets s ! i) else CLOSED)"

definition set_sock_state :: "nat \<Rightarrow> readyState \<Rightarrow> session \<Rightarrow> session" where
  "set_sock_state i r s =
     (if i < length (sockets s)
      then s\<lparr>sockets := (sockets s)[i := (sockets s ! i)\<lparr>readyState := r\<rparr>]\<rparr>
      else s)"

text \<open>\<open>new WebSocketImpl(url)\<close>: a new socket, connecting.\<close>

definition new_socket :: "string \<Rightarrow> session \<Rightarrow> nat \<times> session" where
  "new_socket u s =
     (length (sockets s),
      s\<lparr>sockets := sockets s @ [\<lparr>sock_url = u, readyState = CONNECTING, sent = []\<rparr>]\<rparr>)"

text \<open>\<open>socket.close()\<close> starts the closing handshake; the close event comes later.\<close>

definition sock_close :: "nat \<Rightarrow> session \<Rightarrow> session" where
  "sock_close i s =
     (if sock_state s i = CONNECTING \<or> sock_state s i = OPEN
      then set_sock_state i CLOSING s else s)"

definition sock_send :: "nat \<Rightarrow> jsval \<Rightarrow> session \<Rightarrow> session" where
  "sock_send i js s =
     (if i < length (sockets s)
      then s\<lparr>sockets := (sockets s)[i := (sockets s ! i)\<lparr>sent := sent (sockets s ! i) @ [js]\<rparr>]\<rparr>
      else s)"

definition log :: "logline \<Rightarrow> session \<Rightarrow> session" where
  "log l s = s\<lparr>console := console s @ [l]\<rparr>"

section \<open>Event registry\<close>

definition callbacks_of :: "session \<Rightarrow> string \<Rightarrow> string \<Rightarrow> fn option list option" where
  "callbacks_of s ns ev = (case eventHandlers s ns of None \<Rightarrow> None | Some m \<Rightarrow> m ev)"

text \<open>\<open>registerEvent\<close>; the closure it returns is \<open>unregister\<close> at the same three arguments.\<close>

definition registerEvent :: "string \<Rightarrow> string \<Rightarrow> fn \<Rightarrow> session \<Rightarrow> session" where
  "registerEvent ns ev cb s =
     (let namespaceHandlers = (case eventHandlers s ns of None \<Rightarrow> Map.empty | Some m \<Rightarrow> m);
          eventCallbacks = (case namespaceHandlers ev of None \<Rightarrow> [] | Some cbs \<Rightarrow> cbs)
      in s\<lparr>eventHandlers :=
            (eventHandlers s)(ns \<mapsto> namespaceHandlers(ev \<mapsto> set_add cb eventCallbacks))\<rparr>)"

definition unregister :: "string \<Rightarrow> string \<Rightarrow> fn \<Rightarrow> session \<Rightarrow> session" where
  "unregister ns ev cb s =
     (case eventHandlers s ns of
        None \<Rightarrow> s
      | Some m \<Rightarrow>
          (case m ev of
             None \<Rightarrow> s
           | Some cbs \<Rightarrow> s\<lparr>eventHandlers := (eventHandlers s)(ns \<mapsto> m(ev \<mapsto> set_delete cb cbs))\<rparr>))"

text \<open>Running a callback's body: the flag tells whether it threw.\<close>

fun run_body :: "act list \<Rightarrow> session \<Rightarrow> bool \<times> session" where
  "run_body [] s = (False, s)"
| "run_body (AThrow # as) s = (True, s)"
| "run_body (AUnregister ns ev f # as) s = run_body as (unregister ns ev f s)"

definition call :: "code \<Rightarrow> fn \<Rightarrow> arg \<Rightarrow> session \<Rightarrow> bool \<times> session" where
  "call fs f a s = run_body (fs f) (s\<lparr>calls := calls s @ [(f, a)]\<rparr>)"

text \<open>The body of the loop of \<open>_handleEvent\<close>: \<open>try { callback(data) } catch { console.error }\<close>.\<close>

definition call_handler :: "code \<Rightarrow> string \<Rightarrow> string \<Rightarrow> fn \<Rightarrow> jsval \<Rightarrow> session \<Rightarrow> session" where
  "call_handler fs ns ev f d s =
     (case call fs f (Data d) s of
        (True, s') \<Rightarrow> log (HandlerError ns ev) s'
      | (False, s') \<Rightarrow> s')"

text \<open>
  The loop \<open>for (const callback of eventCallbacks)\<close>: the iterator's position \<open>i\<close> in the
  entry list of the set registered for the pair, which is read again at every step since
  a callback may have deleted entries meanwhile. No callback body makes the list longer,
  which is why the loop ends.
\<close>

lemma callbacks_of_unregister:
  "callbacks_of (unregister n e f s) ns ev =
     (if n = ns \<and> e = ev then map_option (set_delete f) (callbacks_of s ns ev)
      else callbacks_of s ns ev)"
  by (auto simp: callbacks_of_def unregister_def split: option.splits)

lemma callbacks_len_unregister:
  "map_option length (callbacks_of (unregister n e f s) ns ev) =
   map_option length (callbacks_of s ns ev)"
  by (cases "callbacks_of s ns ev") (auto simp: callbacks_of_unregister set_delete_def)

lemma callbacks_len_run_body:
  "map_option length (callbacks_of (snd (run_body as s)) ns ev) =
   map_option length (callbacks_of s ns ev)"
  by (induction as s rule: run_body.induct) (simp_all add: callbacks_len_unregister)

lemma callbacks_len_call:
  "map_option length (callbacks_of (snd (call fs f a s)) ns ev) =
   map_option length (callbacks_of s ns ev)"
  unfolding call_def by (simp add: callbacks_len_run_body) (simp add: callbacks_of_def)

lemma callbacks_len_call_handler:
  "map_option length (callbacks_of (call_handler fs n e f d s) ns ev) =
   map_option length (callbacks_of s ns ev)"
  using callbacks_len_call [of fs f "Data d" s ns ev]
  by (cases "call fs f (Data d) s")
     (auto simp: call_handler_def log_def callbacks_of_def split: bool.splits)

function handle_loop :: "code \<Rightarrow> string \<Rightarrow> string \<Rightarrow> jsval \<Rightarrow> nat \<Rightarrow> session \<Rightarrow> session" where
  "handle_loop fs ns ev d i s =
     (case callbacks_of s ns ev of
        None \<Rightarrow> s
      | Some eventCallbacks \<Rightarrow>
          if i < length eventCallbacks then
            (case eventCallbacks ! i of
               None \<Rightarrow> handle_loop fs ns ev d (Suc i) s
             | Some callback \<Rightarrow>
                 handle_loop fs ns ev d (Suc i) (call_handler fs ns ev callback d s))
          else s)"
  by pat_completeness auto
termination
proof (relation "measure (\<lambda>(fs, ns, ev, d, i, s).
          case callbacks_of s ns ev of None \<Rightarrow> 0 | Some cbs \<Rightarrow> length cbs - i)")
  show "wf (measure (\<lambda>(fs, ns, ev, d, i, s).
          case callbacks_of s ns ev of None \<Rightarrow> 0 | Some cbs \<Rightarrow> length cbs - i))"
    by simp
next
  fix fs :: code and ns ev :: string and d :: jsval and i :: nat and s :: session and cbs
  assume "callbacks_of s ns ev = Some cbs" "i < length cbs"
  then show "((fs, ns, ev, d, Suc i, s), fs, ns, ev, d, i, s) \<in> measure (\<lambda>(fs, ns, ev, d, i, s).
          case callbacks_of s ns ev of None \<Rightarrow> 0 | Some cbs \<Rightarrow> length cbs - i)"
    by simp
next
  fix fs :: code and ns ev :: string and d :: jsval and i :: nat and s :: session and cbs f
  assume a: "callbacks_of s ns ev = Some cbs" "i < length cbs"
  from callbacks_len_call_handler [of fs ns ev f d s ns ev] a
  obtain cbs' where "callbacks_of (call_handler fs ns ev f d s) ns ev = Some cbs'"
      "length cbs' = length cbs"
    by (cases "callbacks_of (call_handler fs ns ev f d s) ns ev") auto
  with a show "((fs, ns, ev, d, Suc i, call_handler fs ns ev f d s), fs, ns, ev, d, i, s)
      \<in> measure (\<lambda>(fs, ns, ev, d, i, s).
          case callbacks_of s ns ev of None \<Rightarrow> 0 | Some cbs \<Rightarrow> length cbs - i)"
    by simp
qed

declare handle_loop.simps [simp del]

text \<open>\<open>_handleEvent(namespace, event, data)\<close>.\<close>

definition handleEvent :: "code \<Rightarrow> string \<Rightarrow> string \<Rightarrow> jsval \<Rightarrow> session \<Rightarrow> session" where
  "handleEvent fs ns ev d s =
     (case eventHandlers s ns of
        None \<Rightarrow> s
      | Some namespaceHandlers \<Rightarrow>
          (case namespaceHandlers ev of
             None \<Rightarrow> s
           | Some eventCallbacks \<Rightarrow> handle_loop fs ns ev d 0 s))"

section \<open>Dispatch when callbacks also register handlers\<close>

text \<open>
  A callback may also call \<open>registerEvent\<close> while it runs. Bodies with this third effect
  are sequences of \<open>ract\<close>; \<open>embed\<close> reads a body of the two effects above as one of them.
\<close>

datatype ract =
    RThrow
  | RUnregister string string fn
  | RRegister string string fn

type_synonym rcode = "fn \<Rightarrow> ract list"

text \<open>Running such a body: the flag tells whether it threw.\<close>

fun run_rbody :: "ract list \<Rightarrow> session \<Rightarrow> bool \<times> session" where
  "run_rbody [] s = (False, s)"
| "run_rbody (RThrow # as) s = (True, s)"
| "run_rbody (RUnregister ns ev f # as) s = run_rbody as (unregister ns ev f s)"
| "run_rbody (RRegister ns ev f # as) s = run_rbody as (registerEvent ns ev f s)"

definition rcall :: "rcode \<Rightarrow> fn \<Rightarrow> arg \<Rightarrow> session \<Rightarrow> bool \<times> session" where
  "rcall rs f a s = run_rbody (rs f) (s\<lparr>calls := calls s @ [(f, a)]\<rparr>)"

definition rcall_handler :: "rcode \<Rightarrow> string \<Rightarrow> string \<Rightarrow> fn \<Rightarrow> jsval \<Rightarrow> session \<Rightarrow> session" where
  "rcall_handler rs ns ev f d s =
     (case rcall rs f (Data d) s of
        (True, s') \<Rightarrow> log (HandlerError ns ev) s'
      | (False, s') \<Rightarrow> s')"

text \<open>
  The loop \<open>for (const callback of eventCallbacks)\<close> of \<open>_handleEvent\<close> once more. An entry
  added to the set while the loop runs is appended to the entry list and is visited in
  its turn, so the loop need not end, for instance when a callback unregisters and
  registers itself again: \<open>None\<close> stands for a dispatch that does not return.
\<close>

partial_function (option) handle_loop_reg ::
  "rcode \<Rightarrow> string \<Rightarrow> string \<Rightarrow> jsval \<Rightarrow> nat \<Rightarrow> session \<Rightarrow> session option" where
  "handle_loop_reg rs ns ev d i s =
     (case callbacks_of s ns ev of
        None \<Rightarrow> Some s
      | Some eventCallbacks \<Rightarrow>
          if i < length eventCallbacks then
            (case eventCallbacks ! i of
               None \<Rightarrow> handle_loop_reg rs ns ev d (Suc i) s
             | Some callback \<Rightarrow>
                 handle_loop_reg rs ns ev d (Suc i) (rcall_handler rs ns ev callback d s))
          else Some s)"

definition handleEvent_reg :: "rcode \<Rightarrow> string \<Rightarrow> string \<Rightarrow> jsval \<Rightarrow> session \<Rightarrow> session option" where
  "handleEvent_reg rs ns ev d s =
     (case eventHandlers s ns of
        None \<Rightarrow> Some s
      | Some namespaceHandlers \<Rightarrow>
          (case namespaceHandlers ev of
             None \<Rightarrow> Some s
           | Some eventCallbacks \<Rightarrow> handle_loop_reg rs ns ev d 0 s))"

fun embed :: "act \<Rightarrow> ract" where
  "embed AThrow = RThrow"
| "embed (AUnregister ns ev f) = RUnregister ns ev f"

text \<open>The callbacks registered for a pair, in the order the set's iterator visits them.\<close>

definition registered :: "session \<Rightarrow> string \<Rightarrow> string \<Rightarrow> fn list" where
  "registered s ns ev = (case callbacks_of s ns ev of None \<Rightarrow> [] | Some cbs \<Rightarrow> live cbs)"

text \<open>
  What running a body does to the set of a pair: the callbacks it unregisters from the
  pair, whether it registers a callback for the pair, and whether it throws. Nothing after
  a \<open>RThrow\<close> is run.
\<close>

fun removed :: "string \<Rightarrow> string \<Rightarrow> ract list \<Rightarrow> fn list" where
  "removed ns ev [] = []"
| "removed ns ev (RThrow # as) = []"
| "removed ns ev (RUnregister n e f # as) =
     (if n = ns \<and> e = ev then f # removed ns ev as else removed ns ev as)"
| "removed ns ev (RRegister n e f # as) = removed ns ev as"

fun registers_to :: "string \<Rightarrow> string \<Rightarrow> ract list \<Rightarrow> bool" where
  "registers_to ns ev [] = False"
| "registers_to ns ev (RThrow # as) = False"
| "registers_to ns ev (RUnregister n e f # as) = registers_to ns ev as"
| "registers_to ns ev (RRegister n e f # as) = ((n = ns \<and> e = ev) \<or> registers_to ns ev as)"

fun throws :: "ract list \<Rightarrow> bool" where
  "throws [] = False"
| "throws (RThrow # as) = True"
| "throws (RUnregister n e f # as) = throws as"
| "throws (RRegister n e f # as) = throws as"

text \<open>Deleting the callbacks \<open>gs\<close> from an entry list.\<close>

definition kill :: "'a list \<Rightarrow> 'a option list \<Rightarrow> 'a option list" where
  "kill gs es = map (\<lambda>e. case e of None \<Rightarrow> None | Some g \<Rightarrow> if g \<in> set gs then None else Some g) es"

text \<open>
  The callbacks that a dispatch over the registered callbacks \<open>f # rest\<close> calls, in order,
  when no callback registers for the pair: \<open>f\<close>, and then those of \<open>rest\<close> in turn that no
  callback called before them has unregistered.
\<close>

fun dispatch_order :: "rcode \<Rightarrow> string \<Rightarrow> string \<Rightarrow> fn list \<Rightarrow> fn list" where
  "dispatch_order rs ns ev [] = []"
| "dispatch_order rs ns ev (f # rest) =
     f # dispatch_order rs ns ev (filter (\<lambda>g. g \<notin> set (removed ns ev (rs f))) rest)"

text \<open>
  \<open>dispatched rs ns ev d fs cbs s s'\<close>: from \<open>s\<close> to \<open>s'\<close> the callbacks \<open>fs\<close> were called with
  \<open>d\<close>, those that threw were logged, and what they unregistered is deleted from \<open>cbs\<close>.
\<close>

definition dispatched :: "rcode \<Rightarrow> string \<Rightarrow> string \<Rightarrow> jsval \<Rightarrow> fn list \<Rightarrow> fn option list \<Rightarrow> session \<Rightarrow> session \<Rightarrow> bool" where
  "dispatched rs ns ev d fs cbs s s' =
     (calls s' = calls s @ map (\<lambda>f. (f, Data d)) fs \<and>
      console s' = console s @ map (\<lambda>f. HandlerError ns ev) (filter (\<lambda>f. throws (rs f)) fs) \<and>
      callbacks_of s' ns ev = Some (kill (concat (map (\<lambda>f. removed ns ev (rs f)) fs)) cbs))"

section \<open>Connection manager\<close>

definition connect :: "session \<Rightarrow> session" where
  "connect s =
     (if (case ws s of
            None \<Rightarrow> False
          | Some i \<Rightarrow> sock_state s i = CONNECTING \<or> sock_state s i = OPEN)
      then s
      else if isConnecting s then s
      else (case new_socket (url s) (s\<lparr>isConnecting := True\<rparr>) of
              (i, s') \<Rightarrow> s'\<lparr>ws := Some i\<rparr>))"

definition onopen :: "code \<Rightarrow> session \<Rightarrow> session" where
  "onopen fs s =
     (let s1 = s\<lparr>isConnecting := False\<rparr>;
          s2 = (case reconnectTimer s1 of
                  None \<Rightarrow> s1
                | Some t \<Rightarrow> (clearTimeout t s1)\<lparr>reconnectTimer := None\<rparr>)
      in handleEvent fs ''system'' ''connected'' Null s2)"

definition onclose :: "code \<Rightarrow> session \<Rightarrow> session" where
  "onclose fs s =
     (let s1 = s\<lparr>isConnecting := False, clientId := Null\<rparr>;
          s2 = handleEvent fs ''system'' ''disconnected'' Null s1
      in if autoReconnect s2
         then (case setTimeout (reconnectInterval s2) s2 of
                 (t, s3) \<Rightarrow> s3\<lparr>reconnectTimer := Some t\<rparr>)
         else s2)"

definition onerror :: "code \<Rightarrow> jsval \<Rightarrow> session \<Rightarrow> session" where
  "onerror fs err s = handleEvent fs ''system'' ''error'' err s"

text \<open>
  The handshake on \<open>system:init\<close>: \<open>this.clientId = message.data.clientId\<close>, then the ready
  callback. The exception, if any, is returned with the state reached when it was thrown.
\<close>

definition init_handshake :: "code \<Rightarrow> jsval \<Rightarrow> session \<Rightarrow> exn option \<times> session" where
  "init_handshake fs message s =
     (case get_prop (heap s) message ''data'' of
        Inl e \<Rightarrow> (Some e, s)
      | Inr d \<Rightarrow>
          (case get_prop (heap s) d ''clientId'' of
             Inl e \<Rightarrow> (Some e, s)
           | Inr cid \<Rightarrow>
               (let s1 = s\<lparr>clientId := cid\<rparr>
                in case onReady s1 of
                     None \<Rightarrow> (None, s1)
                   | Some f \<Rightarrow>
                       (case call fs f (Data cid) s1 of
                          (True, s2) \<Rightarrow> (Some (Raised f), s2)
                        | (False, s2) \<Rightarrow> (None, s2)))))"

text \<open>
  The registry is keyed by strings (\<open>registerEvent(namespace: string, event: string, ...)\<close>),
  so a namespace or event of a frame that is not a string finds no handlers.
\<close>

definition dispatch_frame :: "code \<Rightarrow> jsval \<Rightarrow> jsval \<Rightarrow> jsval \<Rightarrow> session \<Rightarrow> session" where
  "dispatch_frame fs ns ev d s =
     (case ns of
        JStr n \<Rightarrow> (case ev of JStr e \<Rightarrow> handleEvent fs n e d s | _ \<Rightarrow> s)
      | _ \<Rightarrow> s)"

text \<open>The \<open>try\<close> block of \<open>onmessage\<close>, after \<open>JSON.parse\<close> has returned \<open>message\<close>.\<close>

definition message_body :: "code \<Rightarrow> jsval \<Rightarrow> session \<Rightarrow> exn option \<times> session" where
  "message_body fs message s =
     (case get_prop (heap s) message ''namespace'' of
        Inl e \<Rightarrow> (Some e, s)
      | Inr ns \<Rightarrow>
          if \<not> truthy ns then (None, s)
          else
            (case get_prop (heap s) message ''event'' of
               Inl e \<Rightarrow> (Some e, s)
             | Inr ev \<Rightarrow>
                 if \<not> truthy ev then (None, s)
                 else
                   (case (if ns = JStr ''system'' \<and> ev = JStr ''init''
                          then init_handshake fs message s else (None, s)) of
                      (Some e, s1) \<Rightarrow> (Some e, s1)
                    | (None, s1) \<Rightarrow>
                        (case get_prop (heap s1) message ''data'' of
                           Inl e \<Rightarrow> (Some e, s1)
                         | Inr d \<Rightarrow> (None, dispatch_frame fs ns ev d s1)))))"

text \<open>
  \<open>onmessage\<close>: \<open>parsed\<close> is the result of \<open>JSON.parse(event.data)\<close>, \<open>None\<close> when it throws.
  Whatever is thrown inside the \<open>try\<close> block ends in the same \<open>console.error\<close>.
\<close>

definition onmessage :: "code \<Rightarrow> jsval option \<Rightarrow> session \<Rightarrow> session" where
  "onmessage fs parsed s =
     (case parsed of
        None \<Rightarrow> log ParseFailed s
      | Some message \<Rightarrow>
          (case message_body fs message s of
             (None, s') \<Rightarrow> s'
           | (Some e, s') \<Rightarrow> log ParseFailed s'))"

section \<open>Plugin host\<close>

text \<open>
  The result of a method that may throw is the exception, if any, and the state it leaves:
  what was assigned before the \<open>throw\<close> stays assigned.
\<close>

definition registerPlugin :: "code \<Rightarrow> plugin \<Rightarrow> session \<Rightarrow> exn option \<times> session" where
  "registerPlugin fs p s =
     (case plugin_id p of
        None \<Rightarrow> (Some (Error ''Plugin must have an id property''), s)
      | Some pid \<Rightarrow>
          if pid = [] then (Some (Error ''Plugin must have an id property''), s)
          else if map_has (plugins s) pid
          then (Some (Error (''Plugin with id '' @ pid @ '' is already registered'')), s)
          else
            (let s1 = s\<lparr>plugins := map_put pid p (plugins s)\<rparr>
             in case initialize p of
                  None \<Rightarrow> (None, s1)
                | Some f \<Rightarrow>
                    (case call fs f Api s1 of
                       (True, s2) \<Rightarrow> (Some (Raised f), s2)
                     | (False, s2) \<Rightarrow> (None, s2))))"

definition unregisterPlugin :: "code \<Rightarrow> string \<Rightarrow> session \<Rightarrow> session" where
  "unregisterPlugin fs pluginId s =
     (case map_get (plugins s) pluginId of
        None \<Rightarrow> s
      | Some p \<Rightarrow>
          (let s1 = (case cleanup p of
                       None \<Rightarrow> s
                     | Some f \<Rightarrow>
                         (case call fs f NoArg s of
                            (True, s') \<Rightarrow> log (CleanupError pluginId) s'
                          | (False, s') \<Rightarrow> s'))
           in s1\<lparr>plugins := map_delete pluginId (plugins s1)\<rparr>))"

definition getPlugins :: "session \<Rightarrow> plugin list" where
  "getPlugins s = map snd (live (plugins s))"

lemma plugins_run_body: "plugins (snd (run_body as s)) = plugins s"
  by (induction as s rule: run_body.induct) (simp_all add: unregister_def split: option.splits)

lemma plugins_call: "plugins (snd (call fs f a s)) = plugins s"
  by (simp add: call_def plugins_run_body)

lemma length_plugins_unregisterPlugin:
  "length (plugins (unregisterPlugin fs pid s)) = length (plugins s)"
proof (cases "map_get (plugins s) pid")
  case None
  then show ?thesis by (simp add: unregisterPlugin_def)
next
  case (Some p)
  show ?thesis
  proof (cases "cleanup p")
    case None
    with Some show ?thesis by (simp add: unregisterPlugin_def map_delete_def)
  next
    case (Some f)
    with \<open>map_get (plugins s) pid = Some p\<close> plugins_call [of fs f NoArg s]
    show ?thesis
      by (cases "call fs f NoArg s")
         (auto simp: unregisterPlugin_def map_delete_def log_def split: bool.splits)
  qed
qed

text \<open>
  The loop \<open>for (const [pluginId] of this.plugins) this.unregisterPlugin(pluginId)\<close> of
  \<open>disconnect\<close>, by the iterator's position in the entry list of the map.
\<close>

function teardown_loop :: "code \<Rightarrow> nat \<Rightarrow> session \<Rightarrow> session" where
  "teardown_loop fs i s =
     (if i < length (plugins s) then
        (case plugins s ! i of
           None \<Rightarrow> teardown_loop fs (Suc i) s
         | Some (pluginId, p) \<Rightarrow> teardown_loop fs (Suc i) (unregisterPlugin fs pluginId s))
      else s)"
  by pat_completeness auto
termination
  by (relation "measure (\<lambda>(fs, i, s). length (plugins s) - i)")
     (auto simp: length_plugins_unregisterPlugin)

declare teardown_loop.simps [simp del]

definition disconnect :: "code \<Rightarrow> session \<Rightarrow> session" where
  "disconnect fs s =
     (let s1 = (case reconnectTimer s of
                  None \<Rightarrow> s
                | Some t \<Rightarrow> (clearTimeout t s)\<lparr>reconnectTimer := None\<rparr>)
      in case ws s1 of
           None \<Rightarrow> s1
         | Some i \<Rightarrow>
             (let s2 = s1\<lparr>autoReconnect := False\<rparr>;
                  s3 = sock_close i s2;
                  s4 = s3\<lparr>ws := None, clientId := Null\<rparr>;
                  s5 = teardown_loop fs 0 s4
              in s5\<lparr>plugins := map_clear (plugins s5)\<rparr>))"

section \<open>Sending, metadata, identity\<close>

text \<open>
  \<open>send(namespace, event, data = {})\<close>, with \<open>data\<close> an object or omitted as the type
  declaration says (\<open>data?: EventData\<close>). The frame is the object literal given to
  \<open>JSON.stringify\<close>; when the serializer throws, the exception leaves \<open>send\<close> and nothing
  is written to the socket.
\<close>

definition frame_of :: "string \<Rightarrow> string \<Rightarrow> obj option \<Rightarrow> session \<Rightarrow> frame" where
  "frame_of ns ev d s =
     (JObj [(''namespace'', JStr ns), (''event'', JStr ev),
            (''data'', JObj (obj_set ''metadata'' (JRef (metadata s))
                               (assign [] (case d of None \<Rightarrow> [] | Some ps \<Rightarrow> ps))))],
      heap s)"

definition send :: "string \<Rightarrow> string \<Rightarrow> obj option \<Rightarrow> session \<Rightarrow> exn option \<times> session" where
  "send ns ev d s =
     (case ws s of
        None \<Rightarrow> (Some (Error ''WebSocket is not connected''), s)
      | Some i \<Rightarrow>
          if sock_state s i \<noteq> OPEN then (Some (Error ''WebSocket is not connected''), s)
          else (case stringify (frame_of ns ev d s) of
                  Inl e \<Rightarrow> (Some e, s)
                | Inr js \<Rightarrow> (None, sock_send i js s)))"

text \<open>\<open>this.metadata = { ...this.metadata, ...metadata }\<close>: a new object in the store.\<close>

definition setMetadata :: "obj \<Rightarrow> session \<Rightarrow> session" where
  "setMetadata m s =
     s\<lparr>metadata := length (heap s),
       heap := heap s @ [assign (assign [] (obj_at (heap s) (metadata s))) m]\<rparr>"

text \<open>\<open>return { ...this.metadata }\<close>: the reference to a new object, and the new store.\<close>

definition getMetadata :: "session \<Rightarrow> jsval \<times> session" where
  "getMetadata s =
     (JRef (length (heap s)),
      s\<lparr>heap := heap s @ [assign [] (obj_at (heap s) (metadata s))]\<rparr>)"

definition ready :: "code \<Rightarrow> fn \<Rightarrow> session \<Rightarrow> exn option \<times> session" where
  "ready fs callback s =
     (if truthy (clientId s)
      then (case call fs callback (Data (clientId s)) s of
              (True, s') \<Rightarrow> (Some (Raised callback), s')
            | (False, s') \<Rightarrow> (None, s'))
      else (None, s\<lparr>onReady := Some callback\<rparr>))"

definition isConnected :: "session \<Rightarrow> bool" where
  "isConnected s = (case ws s of None \<Rightarrow> False | Some i \<Rightarrow> sock_state s i = OPEN)"

definition getId :: "session \<Rightarrow> jsval" where
  "getId s = clientId s"

section \<open>Histories: what the application and the environment can do to a session\<close>

text \<open>
  The application calls the public methods and the capabilities they returned, and may
  create objects and write properties of objects it holds a reference to. The environment
  delivers the events of a socket that \<open>connect\<close> created (an open event to a connecting
  socket, at most one close event per socket, messages while the socket is open or
  closing) and fires pending timers, whose callback is \<open>() => this.connect()\<close>.
\<close>

datatype op =
    Connect
  | Disconnect
  | RegisterEvent string string fn
  | Unregister string string fn
  | Send string string "obj option"
  | SetMetadata obj
  | GetMetadata
  | Ready fn
  | RegisterPlugin plugin
  | UnregisterPlugin string
  | SockOpen nat
  | SockClose nat
  | SockError nat jsval
  | SockMessage nat "jsval option"
  | TimerFires nat
  | NewObject obj
  | WriteProp addr string jsval

definition write_prop :: "addr \<Rightarrow> string \<Rightarrow> jsval \<Rightarrow> session \<Rightarrow> session" where
  "write_prop a k v s =
     (if a < length (heap s) then s\<lparr>heap := (heap s)[a := obj_set k v (heap s ! a)]\<rparr> else s)"

definition timer_fires :: "nat \<Rightarrow> session \<Rightarrow> session" where
  "timer_fires t s =
     (if t \<in> fst ` set (timers s) then connect (clearTimeout t s) else s)"

fun step :: "code \<Rightarrow> session \<Rightarrow> op \<Rightarrow> session" where
  "step fs s Connect = connect s"
| "step fs s Disconnect = disconnect fs s"
| "step fs s (RegisterEvent ns ev cb) = registerEvent ns ev cb s"
| "step fs s (Unregister ns ev cb) = unregister ns ev cb s"
| "step fs s (Send ns ev d) = snd (send ns ev d s)"
| "step fs s (SetMetadata m) = setMetadata m s"
| "step fs s GetMetadata = snd (getMetadata s)"
| "step fs s (Ready cb) = snd (ready fs cb s)"
| "step fs s (RegisterPlugin p) = snd (registerPlugin fs p s)"
| "step fs s (UnregisterPlugin pid) = unregisterPlugin fs pid s"
| "step fs s (SockOpen i) =
     (if i < length (sockets s) \<and> sock_state s i = CONNECTING
      then onopen fs (set_sock_state i OPEN s) else s)"
| "step fs s (SockClose i) =
     (if i < length (sockets s) \<and> sock_state s i \<noteq> CLOSED
      then onclose fs (set_sock_state i CLOSED s) else s)"
| "step fs s (SockError i err) = (if i < length (sockets s) then onerror fs err s else s)"
| "step fs s (SockMessage i parsed) =
     (if sock_state s i = OPEN \<or> sock_state s i = CLOSING then onmessage fs parsed s else s)"
| "step fs s (TimerFires t) = timer_fires t s"
| "step fs s (NewObject ps) = s\<lparr>heap := heap s @ [ps]\<rparr>"
| "step fs s (WriteProp a k v) = write_prop a k v s"

definition run :: "code \<Rightarrow> session \<Rightarrow> op list \<Rightarrow> session" where
  "run fs s ops = foldl (step fs) s ops"

section \<open>Relations between the state before and after; invariants\<close>

text \<open>
  Callbacks act on the registry and leave their trace in the two logs; tearing a plugin
  down also changes the plugin map. Everything else, in particular the connection state
  machine, the reconnect policy and its timers, is the same before and after a callback.
\<close>

definition callback_frame :: "session \<Rightarrow> session \<Rightarrow> bool" where
  "callback_frame s s' =
     (url s' = url s \<and> autoReconnect s' = autoReconnect s \<and>
      reconnectInterval s' = reconnectInterval s \<and> ws s' = ws s \<and>
      isConnecting s' = isConnecting s \<and> reconnectTimer s' = reconnectTimer s \<and>
      clientId s' = clientId s \<and> metadata s' = metadata s \<and> onReady s' = onReady s \<and>
      sockets s' = sockets s \<and> timers s' = timers s \<and> timer_count s' = timer_count s \<and>
      heap s' = heap s)"

text \<open>The reconnect policy, its timers and the ready slot: what most operations leave alone.\<close>

definition policy_frame :: "session \<Rightarrow> session \<Rightarrow> bool" where
  "policy_frame s s' =
     (autoReconnect s' = autoReconnect s \<and> timers s' = timers s \<and>
      timer_count s' = timer_count s \<and> reconnectTimer s' = reconnectTimer s \<and>
      onReady s' = onReady s)"

text \<open>The calls that tearing down a list of plugin entries makes: each cleanup, in order.\<close>

definition cleanup_calls :: "(string \<times> plugin) list \<Rightarrow> (fn \<times> arg) list" where
  "cleanup_calls es =
     concat (map (\<lambda>e. case cleanup (snd e) of None \<Rightarrow> [] | Some f \<Rightarrow> [(f, NoArg)]) es)"

text \<open>The trace of calls only grows.\<close>

definition calls_extend :: "session \<Rightarrow> session \<Rightarrow> bool" where
  "calls_extend s s' = (\<exists>rest. calls s' = calls s @ rest)"

text \<open>
  A parsed message that is a \<open>system:init\<close> frame whose \<open>data\<close> is \<open>d\<close> and whose
  \<open>data.clientId\<close> is \<open>cid\<close> (\<open>Undefined\<close> when \<open>d\<close> has no such property).
\<close>

definition is_init_frame :: "heap \<Rightarrow> jsval \<Rightarrow> jsval \<Rightarrow> jsval \<Rightarrow> bool" where
  "is_init_frame h m d cid =
     (get_prop h m ''namespace'' = Inr (JStr ''system'') \<and>
      get_prop h m ''event'' = Inr (JStr ''init'') \<and>
      get_prop h m ''data'' = Inr d \<and>
      get_prop h d ''clientId'' = Inr cid)"

text \<open>\<open>shrinks xs ys\<close>: the entry list \<open>ys\<close> is \<open>xs\<close> with some entries deleted.\<close>

definition shrinks :: "'a option list \<Rightarrow> 'a option list \<Rightarrow> bool" where
  "shrinks xs ys = list_all2 (\<lambda>x y. y = x \<or> y = None) xs ys"

text \<open>The registry after is the registry before, with some callbacks deleted.\<close>

definition registry_shrinks :: "session \<Rightarrow> session \<Rightarrow> bool" where
  "registry_shrinks s s' =
     (\<forall>ns ev. rel_option shrinks (callbacks_of s ns ev) (callbacks_of s' ns ev))"

text \<open>
  Steps whose only effect on the registry, the plugin map and the object store is the
  deletion of callbacks.
\<close>

definition benign :: "session \<Rightarrow> session \<Rightarrow> bool" where
  "benign s s' =
     (registry_shrinks s s' \<and> plugins s' = plugins s \<and> metadata s' = metadata s \<and>
      heap s' = heap s)"

text \<open>
  What holds of every session reached from the constructor: no callback occurs twice in a
  set, no key occurs twice in the plugin map, and the metadata reference points into the
  object store.
\<close>

definition registry_ok :: "session \<Rightarrow> bool" where
  "registry_ok s = (\<forall>ns ev cbs. callbacks_of s ns ev = Some cbs \<longrightarrow> distinct (live cbs))"

definition session_ok :: "session \<Rightarrow> bool" where
  "session_ok s =
     (registry_ok s \<and> distinct (map fst (live (plugins s))) \<and> metadata s < length (heap s))"

text \<open>Reading a property path \<open>v.k1.k2...\<close> in a store.\<close>

fun read_path :: "heap \<Rightarrow> jsval \<Rightarrow> string list \<Rightarrow> exn + jsval" where
  "read_path h v [] = Inr v"
| "read_path h v (k # ks) =
     (case get_prop h v k of Inl e \<Rightarrow> Inl e | Inr v' \<Rightarrow> read_path h v' ks)"

section \<open>Example sessions\<close>

definition no_options :: options where
  "no_options = \<lparr>opt_url = None, opt_autoReconnect = None, opt_reconnectInterval = None\<rparr>"

text \<open>\<open>new LibrandaClient()\<close> outside a browser.\<close>

definition fresh :: session where
  "fresh = LibrandaClient None no_options"

text \<open>Callbacks that do nothing.\<close>

definition idle :: code where
  "idle = (\<lambda>f. [])"

definition plugin_p :: plugin where
  "plugin_p = \<lparr>plugin_id = Some ''p'', initialize = Some 1, cleanup = Some 2\<rparr>"

definition plugin_q :: plugin where
  "plugin_q = \<lparr>plugin_id = Some ''q'', initialize = None, cleanup = Some 4\<rparr>"

text \<open>Callbacks of which number 4 throws.\<close>

definition faulty :: code where
  "faulty = (\<lambda>f. if f = 4 then [AThrow] else [])"

text \<open>The frame \<open>{namespace: "system", event: "init", data: {clientId: c}}\<close>, parsed.\<close>

definition init_frame :: "string \<Rightarrow> jsval" where
  "init_frame c =
     JObj [(''namespace'', JStr ''system''), (''event'', JStr ''init''),
           (''data'', JObj [(''clientId'', JStr c)])]"

definition plugin_r :: plugin where
  "plugin_r = \<lparr>plugin_id = Some ''r'', initialize = Some 4, cleanup = None\<rparr>"

text \<open>A connected session with three handlers for \<open>chat:message\<close> and two plugins.\<close>

definition chatting :: session where
  "chatting = run faulty fresh
     [RegisterEvent ''chat'' ''message'' 3, RegisterEvent ''chat'' ''message'' 4,
      RegisterEvent ''chat'' ''message'' 5, RegisterPlugin plugin_q, RegisterPlugin plugin_p,
      Connect, SockOpen 0]"

text \<open>Two \<open>system:init\<close> frames: one whose data has no \<open>clientId\<close>, one with no data.\<close>

definition init_without_id :: jsval where
  "init_without_id =
     JObj [(''namespace'', JStr ''system''), (''event'', JStr ''init''), (''data'', JObj [])]"

definition init_without_data :: jsval where
  "init_without_data = JObj [(''namespace'', JStr ''system''), (''event'', JStr ''init'')]"

text \<open>
  Connected sessions with handler 3 registered for \<open>system:init\<close> and a stored ready
  callback: callback 5, which returns, and callback 4, which throws.
\<close>

definition awaiting :: session where
  "awaiting = run faulty fresh
     [RegisterEvent ''system'' ''init'' 3, Ready 5, Connect, SockOpen 0]"

definition awaiting_faulty :: session where
  "awaiting_faulty = run faulty fresh
     [RegisterEvent ''system'' ''init'' 3, Ready 4, Connect, SockOpen 0]"

text \<open>A connected session with handler 3 for \<open>system:init\<close> and no ready callback.\<close>

definition listening :: session where
  "listening = run faulty fresh [RegisterEvent ''system'' ''init'' 3, Connect, SockOpen 0]"

text \<open>
  A session in which 11, 12, 13 and 14 are registered for \<open>chat:message\<close>, 11 twice, and 10
  was registered and unregistered again.
\<close>

definition heard :: session where
  "heard = run idle fresh
     [RegisterEvent ''chat'' ''message'' 11, RegisterEvent ''chat'' ''message'' 10,
      RegisterEvent ''chat'' ''message'' 12, RegisterEvent ''chat'' ''message'' 13,
      Unregister ''chat'' ''message'' 10, RegisterEvent ''chat'' ''message'' 14,
      RegisterEvent ''chat'' ''message'' 11]"

text \<open>
  Callbacks of which 11 throws, 12 unregisters 13 from \<open>chat:message\<close> and registers 15 for
  \<open>chat:typing\<close>, and 14 unregisters itself.
\<close>

definition careful :: rcode where
  "careful = (\<lambda>f. if f = 11 then [RThrow]
                   else if f = 12 then [RUnregister ''chat'' ''message'' 13,
                                        RRegister ''chat'' ''typing'' 15]
                   else if f = 14 then [RUnregister ''chat'' ''message'' 14]
                   else [])"

text \<open>Callbacks of which 11 throws and none touches \<open>chat:message\<close>.\<close>

definition quiet :: rcode where
  "quiet = (\<lambda>f. if f = 11 then [RThrow]
                 else if f = 12 then [RUnregister ''chat'' ''typing'' 13]
                 else [])"

text \<open>
  A session in which 21 and 22 are registered for \<open>chat:message\<close>, and callbacks of which
  22 unregisters 21 and registers it again.
\<close>

definition paired :: session where
  "paired = run idle fresh
     [RegisterEvent ''chat'' ''message'' 21, RegisterEvent ''chat'' ''message'' 22]"

definition rejoining :: rcode where
  "rejoining = (\<lambda>f. if f = 22 then [RUnregister ''chat'' ''message'' 21,
                                          RRegister ''chat'' ''message'' 21]
                     else [])"

text \<open>
  A session in which 31 is registered for \<open>chat:message\<close>, and callbacks of which 31
  unregisters itself and registers itself again.
\<close>

definition spinning :: session where
  "spinning = run idle fresh [RegisterEvent ''chat'' ''message'' 31]"

definition restless :: rcode where
  "restless = (\<lambda>f. if f = 31 then [RUnregister ''chat'' ''message'' 31,
                                         RRegister ''chat'' ''message'' 31]
                    else [])"

text \<open>A session whose metadata is \<open>{a: o}\<close>, with \<open>o = {x: 1}\<close> an object of the application.\<close>

definition tagged :: session where
  "tagged = run idle fresh [NewObject [(''x'', JNum 1)], SetMetadata [(''a'', JRef 1)]]"

text \<open>
  A connected session in which the application holds an object that refers to itself,
  \<open>o = {}; o.self = o\<close>.
\<close>

definition looped :: session where
  "looped = run idle fresh [NewObject [(''self'', JRef 1)], Connect, SockOpen 0]"

text \<open>The session \<open>tagged\<close>, connected.\<close>

definition online :: session where
  "online = run idle tagged [Connect, SockOpen 0]"

section \<open>Auxiliary facts\<close>

lemma callback_frame_refl: "callback_frame s s"
  by (simp add: callback_frame_def)

lemma callback_frame_trans:
  "callback_frame s s' \<Longrightarrow> callback_frame s' s'' \<Longrightarrow> callback_frame s s''"
  by (simp add: callback_frame_def)

lemma callback_frameD:
  assumes "callback_frame s s'"
  shows "url s' = url s" "autoReconnect s' = autoReconnect s"
    "reconnectInterval s' = reconnectInterval s" "ws s' = ws s"
    "isConnecting s' = isConnecting s" "reconnectTimer s' = reconnectTimer s"
    "clientId s' = clientId s" "metadata s' = metadata s" "onReady s' = onReady s"
    "sockets s' = sockets s" "timers s' = timers s" "timer_count s' = timer_count s"
    "heap s' = heap s"
  using assms by (simp_all add: callback_frame_def)

lemma callback_frame_unregister: "callback_frame s (unregister ns ev f s)"
  by (simp add: callback_frame_def unregister_def split: option.splits)

lemma callback_frame_run_body: "callback_frame s (snd (run_body as s))"
proof (induction as s rule: run_body.induct)
  case (3 ns ev f as s)
  from callback_frame_trans [OF callback_frame_unregister 3] show ?case by simp
qed (simp_all add: callback_frame_refl)

lemma callback_frame_call: "callback_frame s (snd (call fs f a s))"
proof -
  have "callback_frame s (s\<lparr>calls := calls s @ [(f, a)]\<rparr>)"
    by (simp add: callback_frame_def)
  from callback_frame_trans [OF this callback_frame_run_body] show ?thesis
    by (simp add: call_def)
qed

lemma callback_frame_log: "callback_frame s (log l s)"
  by (simp add: callback_frame_def log_def)

lemma callback_frame_call_handler: "callback_frame s (call_handler fs ns ev f d s)"
proof (cases "call fs f (Data d) s")
  case (Pair threw s')
  with callback_frame_call [of s fs f "Data d"] have f: "callback_frame s s'" by simp
  show ?thesis
  proof (cases threw)
    case True
    with Pair callback_frame_trans [OF f callback_frame_log]
    show ?thesis by (simp add: call_handler_def)
  next
    case False
    with Pair f show ?thesis by (simp add: call_handler_def)
  qed
qed

lemma callback_frame_handle_loop: "callback_frame s (handle_loop fs ns ev d i s)"
proof (induction fs ns ev d i s rule: handle_loop.induct)
  case (1 fs ns ev d i s)
  show ?case
  proof (cases "callbacks_of s ns ev")
    case None
    then show ?thesis by (simp add: handle_loop.simps [of fs ns ev d i s] callback_frame_refl)
  next
    case (Some cbs)
    show ?thesis
    proof (cases "i < length cbs")
      case False
      with Some show ?thesis by (simp add: handle_loop.simps [of fs ns ev d i s] callback_frame_refl)
    next
      case True
      show ?thesis
      proof (cases "cbs ! i")
        case None
        with Some True "1.IH"(1) show ?thesis by (simp add: handle_loop.simps [of fs ns ev d i s])
      next
        case (Some f)
        from "1.IH"(2) [OF \<open>callbacks_of s ns ev = Some cbs\<close> True Some]
        have "callback_frame (call_handler fs ns ev f d s)
                (handle_loop fs ns ev d (Suc i) (call_handler fs ns ev f d s))" .
        from callback_frame_trans [OF callback_frame_call_handler this]
        show ?thesis using \<open>callbacks_of s ns ev = Some cbs\<close> True Some
          by (simp add: handle_loop.simps [of fs ns ev d i s])
      qed
    qed
  qed
qed

lemma callback_frame_handleEvent: "callback_frame s (handleEvent fs ns ev d s)"
  by (simp add: handleEvent_def callback_frame_refl callback_frame_handle_loop
      split: option.splits)

lemma callback_frame_unregisterPlugin: "callback_frame s (unregisterPlugin fs pid s)"
proof (cases "map_get (plugins s) pid")
  case None
  then show ?thesis by (simp add: unregisterPlugin_def callback_frame_refl)
next
  case (Some p)
  define s1 where "s1 = (case cleanup p of None \<Rightarrow> s
      | Some f \<Rightarrow> (case call fs f NoArg s of (True, s') \<Rightarrow> log (CleanupError pid) s'
                   | (False, s') \<Rightarrow> s'))"
  have f1: "callback_frame s s1"
  proof (cases "cleanup p")
    case None
    then show ?thesis by (simp add: s1_def callback_frame_refl)
  next
    case (Some f)
    obtain threw s' where c: "call fs f NoArg s = (threw, s')" by (cases "call fs f NoArg s")
    with callback_frame_call [of s fs f NoArg] have "callback_frame s s'" by simp
    with callback_frame_trans [OF this callback_frame_log] c Some
    show ?thesis by (cases threw) (simp_all add: s1_def)
  qed
  have "callback_frame s1 (s1\<lparr>plugins := map_delete pid (plugins s1)\<rparr>)"
    by (simp add: callback_frame_def)
  from callback_frame_trans [OF f1 this] Some show ?thesis
    by (simp add: unregisterPlugin_def s1_def Let_def)
qed

lemma callback_frame_teardown_loop: "callback_frame s (teardown_loop fs i s)"
proof (induction fs i s rule: teardown_loop.induct)
  case (1 fs i s)
  show ?case
  proof (cases "i < length (plugins s)")
    case False
    then show ?thesis by (simp add: teardown_loop.simps [of fs i s] callback_frame_refl)
  next
    case True
    show ?thesis
    proof (cases "plugins s ! i")
      case None
      with True "1.IH"(1) show ?thesis by (simp add: teardown_loop.simps [of fs i s])
    next
      case (Some e)
      obtain pid p where e: "e = (pid, p)" by (cases e)
      from "1.IH"(2) [OF True Some [unfolded e] refl]
      have "callback_frame (unregisterPlugin fs pid s)
              (teardown_loop fs (Suc i) (unregisterPlugin fs pid s))" .
      from callback_frame_trans [OF callback_frame_unregisterPlugin this]
      show ?thesis using True Some e by (simp add: teardown_loop.simps [of fs i s])
    qed
  qed
qed

lemma policy_frame_refl: "policy_frame s s"
  by (simp add: policy_frame_def)

lemma policy_frame_trans:
  "policy_frame s s' \<Longrightarrow> policy_frame s' s'' \<Longrightarrow> policy_frame s s''"
  by (simp add: policy_frame_def)

lemma policy_frameD:
  assumes "policy_frame s s'"
  shows "autoReconnect s' = autoReconnect s" "timers s' = timers s"
    "timer_count s' = timer_count s" "reconnectTimer s' = reconnectTimer s"
    "onReady s' = onReady s"
  using assms by (simp_all add: policy_frame_def)

lemma callback_frame_policy: "callback_frame s s' \<Longrightarrow> policy_frame s s'"
  by (simp add: callback_frame_def policy_frame_def)

lemma policy_frame_connect: "policy_frame s (connect s)"
  by (simp add: policy_frame_def connect_def new_socket_def)

lemma policy_frame_set_sock_state: "policy_frame s (set_sock_state i r s)"
  by (simp add: policy_frame_def set_sock_state_def)

lemma policy_frame_registerEvent: "policy_frame s (registerEvent ns ev cb s)"
  by (simp add: policy_frame_def registerEvent_def Let_def)

lemma policy_frame_send: "policy_frame s (snd (send ns ev d s))"
  by (simp add: policy_frame_def send_def sock_send_def split: option.splits sum.splits)

lemma policy_frame_setMetadata: "policy_frame s (setMetadata m s)"
  by (simp add: policy_frame_def setMetadata_def)

lemma policy_frame_getMetadata: "policy_frame s (snd (getMetadata s))"
  by (simp add: policy_frame_def getMetadata_def)

lemma policy_frame_write_prop: "policy_frame s (write_prop a k v s)"
  by (simp add: policy_frame_def write_prop_def)

lemma policy_frame_registerPlugin: "policy_frame s (snd (registerPlugin fs p s))"
proof (cases "\<exists>pid. plugin_id p = Some pid \<and> pid \<noteq> [] \<and> \<not> map_has (plugins s) pid")
  case False
  then show ?thesis
    by (cases "plugin_id p") (auto simp: registerPlugin_def policy_frame_refl)
next
  case True
  then obtain pid where pid: "plugin_id p = Some pid" "pid \<noteq> []" "\<not> map_has (plugins s) pid"
    by blast
  let ?s1 = "s\<lparr>plugins := map_put pid p (plugins s)\<rparr>"
  have f1: "policy_frame s ?s1" by (simp add: policy_frame_def)
  show ?thesis
  proof (cases "initialize p")
    case None
    with pid f1 show ?thesis by (simp add: registerPlugin_def)
  next
    case (Some f)
    obtain threw s2 where c: "call fs f Api ?s1 = (threw, s2)" by (cases "call fs f Api ?s1")
    with callback_frame_call [of ?s1 fs f Api] have "callback_frame ?s1 s2" by simp
    from policy_frame_trans [OF f1 callback_frame_policy [OF this]] pid Some c
    show ?thesis by (cases threw) (simp_all add: registerPlugin_def)
  qed
qed

lemma init_handshake_frame:
  assumes "init_handshake fs m s = (e, s1)"
  shows "policy_frame s s1"
proof (cases "\<exists>d cid. get_prop (heap s) m ''data'' = Inr d \<and> get_prop (heap s) d ''clientId'' = Inr cid")
  case False
  with assms have "s1 = s"
    by (auto simp: init_handshake_def split: sum.splits)
  then show ?thesis by (simp add: policy_frame_refl)
next
  case True
  then obtain d cid where g: "get_prop (heap s) m ''data'' = Inr d"
    "get_prop (heap s) d ''clientId'' = Inr cid" by blast
  let ?s1 = "s\<lparr>clientId := cid\<rparr>"
  have f1: "policy_frame s ?s1" by (simp add: policy_frame_def)
  show ?thesis
  proof (cases "onReady s")
    case None
    with g assms f1 show ?thesis by (auto simp: init_handshake_def)
  next
    case (Some f)
    obtain threw s2 where c: "call fs f (Data cid) ?s1 = (threw, s2)"
      by (cases "call fs f (Data cid) ?s1")
    with callback_frame_call [of ?s1 fs f "Data cid"] have "callback_frame ?s1 s2" by simp
    from policy_frame_trans [OF f1 callback_frame_policy [OF this]] g Some c assms
    show ?thesis by (cases threw) (auto simp: init_handshake_def)
  qed
qed

lemma policy_frame_dispatch_frame: "policy_frame s (dispatch_frame fs ns ev d s)"
  by (simp add: dispatch_frame_def policy_frame_refl
      callback_frame_policy [OF callback_frame_handleEvent] split: jsval.splits)

lemma policy_frame_message_body: "policy_frame s (snd (message_body fs m s))"
proof -
  obtain e1 s1 where h: "init_handshake fs m s = (e1, s1)"
    by (cases "init_handshake fs m s")
  note f1 = init_handshake_frame [OF h]
  have f2: "\<And>ns ev d. policy_frame s (dispatch_frame fs ns ev d s1)"
    using policy_frame_trans [OF f1 policy_frame_dispatch_frame] .
  show ?thesis
    unfolding message_body_def using h f1 f2 policy_frame_dispatch_frame [of s]
    by (auto simp: policy_frame_refl split: sum.splits option.splits)
qed

lemma policy_frame_log: "policy_frame s (log l s)"
  by (simp add: policy_frame_def log_def)

lemma policy_frame_onmessage: "policy_frame s (onmessage fs parsed s)"
proof (cases parsed)
  case None
  then show ?thesis by (simp add: onmessage_def policy_frame_log)
next
  case (Some m)
  obtain e s' where b: "message_body fs m s = (e, s')" by (cases "message_body fs m s")
  with policy_frame_message_body [of s fs m] have f: "policy_frame s s'" by simp
  with Some b policy_frame_trans [OF f policy_frame_log]
  show ?thesis by (cases e) (simp_all add: onmessage_def)
qed

lemma policy_frame_onerror: "policy_frame s (onerror fs err s)"
  by (simp add: onerror_def callback_frame_policy [OF callback_frame_handleEvent])

lemma clearTimeout_fields:
  "autoReconnect (clearTimeout t s) = autoReconnect s"
  "onReady (clearTimeout t s) = onReady s"
  "set (timers (clearTimeout t s)) \<subseteq> set (timers s)"
  "t \<notin> fst ` set (timers (clearTimeout t s))"
  "ws (clearTimeout t s) = ws s"
  by (auto simp: clearTimeout_def)

lemma onopen_policy:
  "autoReconnect (onopen fs s) = autoReconnect s"
  "onReady (onopen fs s) = onReady s"
  "set (timers (onopen fs s)) \<subseteq> set (timers s)"
proof -
  let ?s2 = "case reconnectTimer s of None \<Rightarrow> s\<lparr>isConnecting := False\<rparr>
     | Some t \<Rightarrow> (clearTimeout t (s\<lparr>isConnecting := False\<rparr>))\<lparr>reconnectTimer := None\<rparr>"
  have a: "autoReconnect ?s2 = autoReconnect s" "onReady ?s2 = onReady s"
    "set (timers ?s2) \<subseteq> set (timers s)"
    by (auto simp: clearTimeout_def split: option.splits)
  have o: "onopen fs s = handleEvent fs ''system'' ''connected'' Null ?s2"
    by (simp add: onopen_def Let_def)
  note f = callback_frameD [OF callback_frame_handleEvent [of ?s2 fs "''system''" "''connected''" Null]]
  show "autoReconnect (onopen fs s) = autoReconnect s" using a f(2) o by simp
  show "onReady (onopen fs s) = onReady s" using a f(9) o by simp
  show "set (timers (onopen fs s)) \<subseteq> set (timers s)" using a(3) f(11) o by simp
qed

lemma onclose_policy:
  "autoReconnect (onclose fs s) = autoReconnect s"
  "onReady (onclose fs s) = onReady s"
  "\<not> autoReconnect s \<Longrightarrow> timers (onclose fs s) = timers s"
proof -
  let ?s1 = "s\<lparr>isConnecting := False, clientId := Null\<rparr>"
  let ?s2 = "handleEvent fs ''system'' ''disconnected'' Null ?s1"
  note f = callback_frameD [OF callback_frame_handleEvent [of ?s1 fs "''system''" "''disconnected''" Null]]
  have o: "onclose fs s = (if autoReconnect ?s2
         then (case setTimeout (reconnectInterval ?s2) ?s2 of
                 (t, s3) \<Rightarrow> s3\<lparr>reconnectTimer := Some t\<rparr>)
         else ?s2)"
    by (simp add: onclose_def Let_def)
  show "autoReconnect (onclose fs s) = autoReconnect s"
    using f(2) by (simp add: o setTimeout_def Let_def)
  show "onReady (onclose fs s) = onReady s"
    using f(9) by (simp add: o setTimeout_def Let_def)
  show "\<not> autoReconnect s \<Longrightarrow> timers (onclose fs s) = timers s"
    using f(2) f(11) by (simp add: o)
qed

lemma sock_close_fields:
  "autoReconnect (sock_close i s) = autoReconnect s"
  "onReady (sock_close i s) = onReady s"
  "timers (sock_close i s) = timers s"
  "plugins (sock_close i s) = plugins s"
  "calls (sock_close i s) = calls s"
  by (simp_all add: sock_close_def set_sock_state_def)

lemma disconnect_policy:
  "autoReconnect (disconnect fs s) \<longrightarrow> autoReconnect s"
  "ws s \<noteq> None \<Longrightarrow> \<not> autoReconnect (disconnect fs s)"
  "onReady (disconnect fs s) = onReady s"
  "set (timers (disconnect fs s)) \<subseteq> set (timers s)"
  "reconnectTimer s = Some t \<Longrightarrow> t \<notin> fst ` set (timers (disconnect fs s))"
proof -
  let ?s1 = "case reconnectTimer s of None \<Rightarrow> s
     | Some t \<Rightarrow> (clearTimeout t s)\<lparr>reconnectTimer := None\<rparr>"
  have a: "autoReconnect ?s1 = autoReconnect s" "onReady ?s1 = onReady s"
    "set (timers ?s1) \<subseteq> set (timers s)" "ws ?s1 = ws s"
    "reconnectTimer s = Some t \<Longrightarrow> t \<notin> fst ` set (timers ?s1)"
    by (auto simp: clearTimeout_def split: option.splits)
  have "(autoReconnect (disconnect fs s) \<longrightarrow> autoReconnect s) \<and>
    (ws s \<noteq> None \<longrightarrow> \<not> autoReconnect (disconnect fs s)) \<and>
    onReady (disconnect fs s) = onReady s \<and>
    timers (disconnect fs s) = timers ?s1"
  proof (cases "ws s")
    case None
    with a have "disconnect fs s = ?s1" by (simp add: disconnect_def Let_def)
    with a None show ?thesis by simp
  next
    case (Some i)
    let ?s4 = "(sock_close i (?s1\<lparr>autoReconnect := False\<rparr>))\<lparr>ws := None, clientId := Null\<rparr>"
    let ?s5 = "teardown_loop fs 0 ?s4"
    have d: "disconnect fs s = ?s5\<lparr>plugins := map_clear (plugins ?s5)\<rparr>"
      using Some a(4) by (simp add: disconnect_def Let_def)
    note f = callback_frameD [OF callback_frame_teardown_loop [of ?s4 fs 0]]
    have "autoReconnect ?s4 = False" "onReady ?s4 = onReady s" "timers ?s4 = timers ?s1"
      using a by (simp_all add: sock_close_fields)
    with f(2) f(9) f(11) d Some show ?thesis by simp
  qed
  with a show "autoReconnect (disconnect fs s) \<longrightarrow> autoReconnect s"
  "ws s \<noteq> None \<Longrightarrow> \<not> autoReconnect (disconnect fs s)"
  "onReady (disconnect fs s) = onReady s"
  "set (timers (disconnect fs s)) \<subseteq> set (timers s)"
  "reconnectTimer s = Some t \<Longrightarrow> t \<notin> fst ` set (timers (disconnect fs s))"
    by simp_all
qed

lemma timer_fires_policy:
  "autoReconnect (timer_fires t s) = autoReconnect s"
  "onReady (timer_fires t s) = onReady s"
  "set (timers (timer_fires t s)) \<subseteq> set (timers s)"
  using policy_frameD [OF policy_frame_connect [of "clearTimeout t s"]]
  by (auto simp: timer_fires_def clearTimeout_def)

lemma unregister_policy: "policy_frame s (unregister ns ev cb s)"
  by (simp add: callback_frame_policy [OF callback_frame_unregister])

lemma ready_policy:
  "autoReconnect (snd (ready fs cb s)) = autoReconnect s"
  "timers (snd (ready fs cb s)) = timers s"
proof -
  obtain threw s' where c: "call fs cb (Data (clientId s)) s = (threw, s')"
    by (cases "call fs cb (Data (clientId s)) s")
  with callback_frame_call [of s fs cb "Data (clientId s)"] have f: "callback_frame s s'" by simp
  show "autoReconnect (snd (ready fs cb s)) = autoReconnect s"
    using c callback_frameD(2) [OF f] by (cases threw) (simp_all add: ready_def)
  show "timers (snd (ready fs cb s)) = timers s"
    using c callback_frameD(11) [OF f] by (cases threw) (simp_all add: ready_def)
qed

lemma step_keeps_reconnect_off:
  assumes "\<not> autoReconnect s"
  shows "\<not> autoReconnect (step fs s op) \<and> set (timers (step fs s op)) \<subseteq> set (timers s)"
proof (cases op)
  case Connect
  with assms policy_frameD [OF policy_frame_connect [of s]] show ?thesis by simp
next
  case Disconnect
  with assms disconnect_policy(1,4) [where fs = fs and s = s] show ?thesis by auto
next
  case (RegisterEvent ns ev cb)
  with assms policy_frameD [OF policy_frame_registerEvent [of s ns ev cb]] show ?thesis by simp
next
  case (Unregister ns ev cb)
  with assms policy_frameD [OF unregister_policy [of s ns ev cb]] show ?thesis by simp
next
  case (Send ns ev d)
  with assms policy_frameD [OF policy_frame_send [of s ns ev d]] show ?thesis by simp
next
  case (SetMetadata m)
  with assms policy_frameD [OF policy_frame_setMetadata [of s m]] show ?thesis by simp
next
  case GetMetadata
  with assms policy_frameD [OF policy_frame_getMetadata [of s]] show ?thesis by simp
next
  case (Ready cb)
  with assms ready_policy [where fs = fs and cb = cb and s = s] show ?thesis by simp
next
  case (RegisterPlugin p)
  with assms policy_frameD [OF policy_frame_registerPlugin [of s fs p]] show ?thesis by simp
next
  case (UnregisterPlugin pid)
  with assms callback_frameD [OF callback_frame_unregisterPlugin [of s fs pid]]
  show ?thesis by simp
next
  case (SockOpen i)
  with assms onopen_policy(1,3) [where fs = fs and s = "set_sock_state i OPEN s"]
    policy_frameD [OF policy_frame_set_sock_state [of s i OPEN]]
  show ?thesis by auto
next
  case (SockClose i)
  with assms onclose_policy(1,3) [where fs = fs and s = "set_sock_state i CLOSED s"]
    policy_frameD [OF policy_frame_set_sock_state [of s i CLOSED]]
  show ?thesis by auto
next
  case (SockError i err)
  with assms policy_frameD [OF policy_frame_onerror [of s fs err]] show ?thesis by simp
next
  case (SockMessage i parsed)
  with assms policy_frameD [OF policy_frame_onmessage [of s fs parsed]] show ?thesis by simp
next
  case (TimerFires t)
  with assms timer_fires_policy [where t = t and s = s] show ?thesis by simp
next
  case (NewObject ps)
  with assms show ?thesis by simp
next
  case (WriteProp a k v)
  with assms policy_frameD [OF policy_frame_write_prop [of s a k v]] show ?thesis by simp
qed

lemma run_keeps_reconnect_off:
  "\<not> autoReconnect s \<Longrightarrow>
   \<not> autoReconnect (run fs s ops) \<and> set (timers (run fs s ops)) \<subseteq> set (timers s)"
proof (induction ops arbitrary: s)
  case Nil
  then show ?case by (simp add: run_def)
next
  case (Cons op ops)
  from step_keeps_reconnect_off [OF Cons.prems, of fs op]
  have a: "\<not> autoReconnect (step fs s op)" "set (timers (step fs s op)) \<subseteq> set (timers s)"
    by simp_all
  from Cons.IH [OF a(1)] a(2) show ?case by (auto simp: run_def)
qed

text \<open>The defining equations, for evaluating the model on concrete histories.\<close>

lemmas eval_defs =
  run_def fresh_def idle_def no_options_def plugin_p_def plugin_q_def plugin_r_def faulty_def init_frame_def
  init_without_id_def init_without_data_def chatting_def awaiting_def awaiting_faulty_def cleanup_calls_def LibrandaClient_def getDefaultHost_def
  connect_def new_socket_def sock_state_def set_sock_state_def sock_close_def sock_send_def
  setTimeout_def clearTimeout_def timer_fires_def log_def
  onopen_def onclose_def onerror_def onmessage_def message_body_def init_handshake_def
  dispatch_frame_def handleEvent_def handle_loop.simps callbacks_of_def call_handler_def
  call_def registerEvent_def unregister_def set_add_def set_delete_def
  registerPlugin_def unregisterPlugin_def getPlugins_def disconnect_def teardown_loop.simps
  map_has_def map_get_def map_put_def map_delete_def map_clear_def
  send_def frame_of_def stringify_def setMetadata_def getMetadata_def ready_def isConnected_def getId_def
  write_prop_def obj_get_def obj_at_def Let_def

lemmas reg_defs = run_rbody.simps rcall_def rcall_handler_def handle_loop_reg.simps
  handleEvent_reg_def registered_def kill_def

lemma live_append: "live (xs @ ys) = live xs @ live ys"
  by (induction xs rule: live.induct) simp_all

lemma live_map_delete: "live (map_delete k m) = filter (\<lambda>e. fst e \<noteq> k) (live m)"
  by (induction m rule: live.induct) (auto simp: map_delete_def)

lemma live_map_clear: "live (map_clear m) = []"
  by (induction m) (simp_all add: map_clear_def)

lemma calls_run_body: "calls (snd (run_body as s)) = calls s"
  by (induction as s rule: run_body.induct) (simp_all add: unregister_def split: option.splits)

lemma calls_call: "calls (snd (call fs f a s)) = calls s @ [(f, a)]"
  by (simp add: call_def calls_run_body)

lemma unregisterPlugin_effect:
  assumes "map_get (plugins s) pid = Some p"
  shows "plugins (unregisterPlugin fs pid s) = map_delete pid (plugins s)"
    and "calls (unregisterPlugin fs pid s) = calls s @ cleanup_calls [(pid, p)]"
proof -
  have "plugins (unregisterPlugin fs pid s) = map_delete pid (plugins s) \<and>
    calls (unregisterPlugin fs pid s) = calls s @ cleanup_calls [(pid, p)]"
  proof (cases "cleanup p")
    case None
    with assms show ?thesis by (simp add: unregisterPlugin_def cleanup_calls_def)
  next
    case (Some f)
    obtain threw s' where c: "call fs f NoArg s = (threw, s')" by (cases "call fs f NoArg s")
    with plugins_call [of fs f NoArg s] calls_call [of fs f NoArg s]
    have "plugins s' = plugins s" "calls s' = calls s @ [(f, NoArg)]" by simp_all
    with assms Some c show ?thesis
      by (cases threw) (simp_all add: unregisterPlugin_def cleanup_calls_def log_def)
  qed
  then show "plugins (unregisterPlugin fs pid s) = map_delete pid (plugins s)"
    and "calls (unregisterPlugin fs pid s) = calls s @ cleanup_calls [(pid, p)]" by simp_all
qed

lemma teardown_loop_calls:
  "live (take i (plugins s)) = [] \<Longrightarrow> distinct (map fst (live (drop i (plugins s)))) \<Longrightarrow>
   calls (teardown_loop fs i s) = calls s @ cleanup_calls (live (drop i (plugins s)))"
proof (induction fs i s rule: teardown_loop.induct)
  case (1 fs i s)
  show ?case
  proof (cases "i < length (plugins s)")
    case False
    then show ?thesis by (simp add: teardown_loop.simps [of fs i s] cleanup_calls_def)
  next
    case True
    note dr = Cons_nth_drop_Suc [OF True, symmetric]
    note tk = take_Suc_conv_app_nth [OF True]
    show ?thesis
    proof (cases "plugins s ! i")
      case None
      have "live (take (Suc i) (plugins s)) = []"
        using "1.prems"(1) None by (simp add: tk live_append)
      moreover have eq: "live (drop i (plugins s)) = live (drop (Suc i) (plugins s))"
        using None by (simp add: dr)
      ultimately have "calls (teardown_loop fs (Suc i) s) =
          calls s @ cleanup_calls (live (drop (Suc i) (plugins s)))"
        using "1.IH"(1) [OF True None] "1.prems"(2) by simp
      with True None eq show ?thesis by (simp add: teardown_loop.simps [of fs i s])
    next
      case (Some e)
      obtain pid p where e: "e = (pid, p)" by (cases e)
      let ?s' = "unregisterPlugin fs pid s"
      have lv: "live (drop i (plugins s)) = (pid, p) # live (drop (Suc i) (plugins s))"
        using Some e by (simp add: dr)
      have "live (plugins s) = live (take i (plugins s)) @ live (drop i (plugins s))"
        by (simp add: live_append [symmetric])
      with "1.prems"(1) lv have "live (plugins s) = (pid, p) # live (drop (Suc i) (plugins s))"
        by simp
      then have g: "map_get (plugins s) pid = Some p" by (simp add: map_get_def)
      note eff = unregisterPlugin_effect [OF g, of fs]
      from "1.prems"(2) lv have nk: "pid \<notin> fst ` set (live (drop (Suc i) (plugins s)))"
        and dd: "distinct (map fst (live (drop (Suc i) (plugins s))))" by simp_all
      have t': "live (take (Suc i) (plugins ?s')) = []"
        using "1.prems"(1) Some e
        by (simp add: eff(1) map_delete_def take_map tk live_append)
           (simp add: live_map_delete [unfolded map_delete_def])
      have "live (drop (Suc i) (plugins ?s')) =
          filter (\<lambda>e. fst e \<noteq> pid) (live (drop (Suc i) (plugins s)))"
        using live_map_delete [of pid "drop (Suc i) (plugins s)"]
        by (simp add: eff(1) map_delete_def drop_map)
      also have "\<dots> = live (drop (Suc i) (plugins s))"
        using nk by (auto intro: filter_True)
      finally have d': "live (drop (Suc i) (plugins ?s')) = live (drop (Suc i) (plugins s))" .
      from "1.IH"(2) [OF True Some [unfolded e] refl t'] d' dd
      have "calls (teardown_loop fs (Suc i) ?s') =
          calls ?s' @ cleanup_calls (live (drop (Suc i) (plugins s)))" by simp
      with True Some e eff(2) lv show ?thesis
        by (simp add: teardown_loop.simps [of fs i s] cleanup_calls_def)
    qed
  qed
qed

lemma handle_loop_rel:
  assumes rf: "\<And>s. R s s"
    and tr: "\<And>a b c. R a b \<Longrightarrow> R b c \<Longrightarrow> R a c"
    and st: "\<And>s f. R s (call_handler fs ns ev f d s)"
  shows "R s (handle_loop fs ns ev d i s)"
  using assms
proof (induction fs ns ev d i s rule: handle_loop.induct)
  case (1 fs ns ev d i s)
  note rf = "1.prems"(1) and tr = "1.prems"(2) and st = "1.prems"(3)
  show ?case
  proof (cases "callbacks_of s ns ev")
    case None
    then show ?thesis by (simp add: handle_loop.simps [of fs ns ev d i s] rf)
  next
    case (Some cbs)
    show ?thesis
    proof (cases "i < length cbs")
      case False
      with Some show ?thesis by (simp add: handle_loop.simps [of fs ns ev d i s] rf)
    next
      case True
      show ?thesis
      proof (cases "cbs ! i")
        case None
        from "1.IH"(1) [OF Some True None rf tr st] Some True None
        show ?thesis by (simp add: handle_loop.simps [of fs ns ev d i s])
      next
        case f: (Some f)
        from "1.IH"(2) [OF Some True f rf tr st]
        have "R (call_handler fs ns ev f d s)
                (handle_loop fs ns ev d (Suc i) (call_handler fs ns ev f d s))" .
        from tr [OF st this] Some True f
        show ?thesis by (simp add: handle_loop.simps [of fs ns ev d i s])
      qed
    qed
  qed
qed

lemma handleEvent_rel:
  assumes "\<And>s. R s s" and "\<And>a b c. R a b \<Longrightarrow> R b c \<Longrightarrow> R a c"
    and "\<And>s f. R s (call_handler fs ns ev f d s)"
  shows "R s (handleEvent fs ns ev d s)"
  using handle_loop_rel [of R fs ns ev d s 0, OF assms] assms(1)
  by (simp add: handleEvent_def split: option.splits)

lemma calls_extend_refl: "calls_extend s s"
  by (simp add: calls_extend_def)

lemma calls_extend_trans: "calls_extend a b \<Longrightarrow> calls_extend b c \<Longrightarrow> calls_extend a c"
  by (auto simp: calls_extend_def)

lemma calls_extend_call_handler: "calls_extend s (call_handler fs ns ev f d s)"
  using calls_call [of fs f "Data d" s]
  by (cases "call fs f (Data d) s")
     (auto simp: call_handler_def calls_extend_def log_def split: bool.splits)

lemma calls_extend_handleEvent: "calls_extend s (handleEvent fs ns ev d s)"
  by (rule handleEvent_rel [of calls_extend, OF calls_extend_refl calls_extend_trans
        calls_extend_call_handler])

lemma calls_extend_dispatch_frame: "calls_extend s (dispatch_frame fs ns ev d s)"
  by (simp add: dispatch_frame_def calls_extend_refl calls_extend_handleEvent split: jsval.splits)

lemma step_keeps_onReady:
  assumes "\<forall>g. op \<noteq> Ready g"
  shows "onReady (step fs s op) = onReady s"
proof (cases op)
  case Connect
  with policy_frameD [OF policy_frame_connect [of s]] show ?thesis by simp
next
  case Disconnect
  with disconnect_policy(3) [where fs = fs and s = s] show ?thesis by simp
next
  case (RegisterEvent ns ev cb)
  with policy_frameD [OF policy_frame_registerEvent [of s ns ev cb]] show ?thesis by simp
next
  case (Unregister ns ev cb)
  with policy_frameD [OF unregister_policy [of s ns ev cb]] show ?thesis by simp
next
  case (Send ns ev d)
  with policy_frameD [OF policy_frame_send [of s ns ev d]] show ?thesis by simp
next
  case (SetMetadata m)
  with policy_frameD [OF policy_frame_setMetadata [of s m]] show ?thesis by simp
next
  case GetMetadata
  with policy_frameD [OF policy_frame_getMetadata [of s]] show ?thesis by simp
next
  case (Ready cb)
  with assms show ?thesis by simp
next
  case (RegisterPlugin p)
  with policy_frameD [OF policy_frame_registerPlugin [of s fs p]] show ?thesis by simp
next
  case (UnregisterPlugin pid)
  with callback_frameD [OF callback_frame_unregisterPlugin [of s fs pid]]
  show ?thesis by simp
next
  case (SockOpen i)
  with onopen_policy(2) [where fs = fs and s = "set_sock_state i OPEN s"]
    policy_frameD [OF policy_frame_set_sock_state [of s i OPEN]]
  show ?thesis by auto
next
  case (SockClose i)
  with onclose_policy(2) [where fs = fs and s = "set_sock_state i CLOSED s"]
    policy_frameD [OF policy_frame_set_sock_state [of s i CLOSED]]
  show ?thesis by auto
next
  case (SockError i err)
  with policy_frameD [OF policy_frame_onerror [of s fs err]] show ?thesis by simp
next
  case (SockMessage i parsed)
  with policy_frameD [OF policy_frame_onmessage [of s fs parsed]] show ?thesis by simp
next
  case (TimerFires t)
  with timer_fires_policy(2) [where t = t and s = s] show ?thesis by simp
next
  case (NewObject ps)
  then show ?thesis by simp
next
  case (WriteProp a k v)
  with policy_frameD [OF policy_frame_write_prop [of s a k v]] show ?thesis by simp
qed

lemma run_keeps_onReady:
  "\<forall>op \<in> set ops. \<forall>g. op \<noteq> Ready g \<Longrightarrow> onReady (run fs s ops) = onReady s"
proof (induction ops arbitrary: s)
  case Nil
  then show ?case by (simp add: run_def)
next
  case (Cons op ops)
  from Cons.prems have "\<forall>g. op \<noteq> Ready g" by simp
  from step_keeps_onReady [OF this, of fs s] Cons.IH [of "step fs s op"] Cons.prems
  show ?case by (simp add: run_def)
qed

lemma init_frame_calls_ready:
  assumes r: "onReady s = Some f"
    and n: "get_prop (heap s) m ''namespace'' = Inr (JStr ''system'')"
    and e: "get_prop (heap s) m ''event'' = Inr (JStr ''init'')"
    and d: "get_prop (heap s) m ''data'' = Inr d"
    and c: "get_prop (heap s) d ''clientId'' = Inr cid"
  shows "\<exists>rest. calls (onmessage fs (Some m) s) = calls s @ (f, Data cid) # rest"
proof -
  let ?s1 = "s\<lparr>clientId := cid\<rparr>"
  obtain threw s2 where cl: "call fs f (Data cid) ?s1 = (threw, s2)"
    by (cases "call fs f (Data cid) ?s1")
  with calls_call [of fs f "Data cid" ?s1] have c2: "calls s2 = calls s @ [(f, Data cid)]" by simp
  from cl callback_frameD(13) [OF callback_frame_call [of ?s1 fs f "Data cid"]]
  have h2: "heap s2 = heap s" by simp
  have ih: "init_handshake fs m s = (if threw then Some (Raised f) else None, s2)"
    using r d c cl by (cases threw) (simp_all add: init_handshake_def)
  show ?thesis
  proof (cases threw)
    case True
    with ih n e have "onmessage fs (Some m) s = log ParseFailed s2"
      by (simp add: onmessage_def message_body_def)
    with c2 show ?thesis by (simp add: log_def)
  next
    case False
    with ih n e d h2
    have "onmessage fs (Some m) s = dispatch_frame fs (JStr ''system'') (JStr ''init'') d s2"
      by (simp add: onmessage_def message_body_def)
    with calls_extend_dispatch_frame [of s2 fs "JStr ''system''" "JStr ''init''" d] c2
    show ?thesis by (auto simp: calls_extend_def)
  qed
qed

lemma run_body_throw_only: "set as \<subseteq> {AThrow} \<Longrightarrow> run_body as s = (as \<noteq> [], s)"
  by (cases as; cases "hd as") auto

lemma call_handler_throw_only:
  assumes "set (fs f) \<subseteq> {AThrow}"
  shows "call_handler fs ns ev f d s =
     (if fs f \<noteq> [] then log (HandlerError ns ev) (s\<lparr>calls := calls s @ [(f, Data d)]\<rparr>)
      else s\<lparr>calls := calls s @ [(f, Data d)]\<rparr>)"
  by (simp add: call_handler_def call_def run_body_throw_only [OF assms])

lemma handle_loop_throw_only:
  assumes "\<forall>f. set (fs f) \<subseteq> {AThrow}" and "callbacks_of s ns ev = Some cbs"
  shows "calls (handle_loop fs ns ev d i s) =
           calls s @ map (\<lambda>f. (f, Data d)) (live (drop i cbs)) \<and>
         console (handle_loop fs ns ev d i s) =
           console s @ map (\<lambda>f. HandlerError ns ev) (filter (\<lambda>f. fs f \<noteq> []) (live (drop i cbs)))"
  using assms
proof (induction fs ns ev d i s rule: handle_loop.induct)
  case (1 fs ns ev d i s)
  note cb = "1.prems"(2)
  show ?case
  proof (cases "i < length cbs")
    case False
    with cb show ?thesis by (simp add: handle_loop.simps [of fs ns ev d i s])
  next
    case True
    note dr = Cons_nth_drop_Suc [OF True, symmetric]
    show ?thesis
    proof (cases "cbs ! i")
      case None
      from "1.IH"(1) [OF cb True None "1.prems"] cb True None
      show ?thesis by (simp add: handle_loop.simps [of fs ns ev d i s] dr)
    next
      case (Some f)
      let ?s' = "call_handler fs ns ev f d s"
      from "1.prems"(1) have t: "set (fs f) \<subseteq> {AThrow}" by simp
      note ch = call_handler_throw_only [of fs f ns ev d s, OF t]
      have cb': "callbacks_of ?s' ns ev = Some cbs"
        using cb by (simp add: ch callbacks_of_def log_def)
      have c': "calls ?s' = calls s @ [(f, Data d)]"
        "console ?s' = console s @ (if fs f \<noteq> [] then [HandlerError ns ev] else [])"
        by (simp_all add: ch log_def)
      from "1.IH"(2) [OF cb True Some "1.prems"(1) cb'] cb True Some c'
      show ?thesis by (simp add: handle_loop.simps [of fs ns ev d i s] dr)
    qed
  qed
qed

lemma handleEvent_throw_only:
  assumes "\<forall>f. set (fs f) \<subseteq> {AThrow}" and "callbacks_of s ns ev = Some cbs"
  shows "calls (handleEvent fs ns ev d s) = calls s @ map (\<lambda>f. (f, Data d)) (live cbs)"
    and "console (handleEvent fs ns ev d s) =
           console s @ map (\<lambda>f. HandlerError ns ev) (filter (\<lambda>f. fs f \<noteq> []) (live cbs))"
proof -
  from assms(2) have "handleEvent fs ns ev d s = handle_loop fs ns ev d 0 s"
    by (auto simp: handleEvent_def callbacks_of_def split: option.splits)
  with handle_loop_throw_only [OF assms, of d 0]
  show "calls (handleEvent fs ns ev d s) = calls s @ map (\<lambda>f. (f, Data d)) (live cbs)"
    and "console (handleEvent fs ns ev d s) =
           console s @ map (\<lambda>f. HandlerError ns ev) (filter (\<lambda>f. fs f \<noteq> []) (live cbs))"
    by simp_all
qed

lemma disconnect_with_transport_teardown:
  assumes w: "ws s \<noteq> None" and d: "distinct (map fst (live (plugins s)))"
  shows "reconnectTimer (disconnect fs s) = None"
    and "getPlugins (disconnect fs s) = []"
    and "calls (disconnect fs s) = calls s @ cleanup_calls (live (plugins s))"
proof -
  let ?s1 = "case reconnectTimer s of None \<Rightarrow> s
     | Some t \<Rightarrow> (clearTimeout t s)\<lparr>reconnectTimer := None\<rparr>"
  have s1: "ws ?s1 = ws s" "plugins ?s1 = plugins s" "calls ?s1 = calls s"
    "reconnectTimer ?s1 = None"
    by (simp_all add: clearTimeout_def split: option.splits)
  from w obtain i where i: "ws s = Some i" by auto
  let ?s4 = "(sock_close i (?s1\<lparr>autoReconnect := False\<rparr>))\<lparr>ws := None, clientId := Null\<rparr>"
  let ?s5 = "teardown_loop fs 0 ?s4"
  have e: "disconnect fs s = ?s5\<lparr>plugins := map_clear (plugins ?s5)\<rparr>"
    using i s1(1) by (simp add: disconnect_def Let_def)
  have s4: "plugins ?s4 = plugins s" "calls ?s4 = calls s" "reconnectTimer ?s4 = None"
    using s1 by (simp_all add: sock_close_def set_sock_state_def)
  from teardown_loop_calls [of 0 ?s4 fs] d s4
  have c: "calls ?s5 = calls s @ cleanup_calls (live (plugins s))" by simp
  from callback_frameD(6) [OF callback_frame_teardown_loop [of ?s4 fs 0]] s4(3)
  have r: "reconnectTimer ?s5 = None" by simp
  show "reconnectTimer (disconnect fs s) = None"
    and "getPlugins (disconnect fs s) = []"
    and "calls (disconnect fs s) = calls s @ cleanup_calls (live (plugins s))"
    using c r by (simp_all add: e getPlugins_def live_map_clear)
qed

lemma run_body_throws: "fst (run_body as s) = (AThrow \<in> set as)"
  by (induction as s rule: run_body.induct) simp_all

lemma map_get_map_put_new:
  "\<not> map_has m k \<Longrightarrow> map_get (map_put k v m) k = Some v"
proof -
  assume n: "\<not> map_has m k"
  then have "map_of (live m) k = None"
    by (simp add: map_has_def map_of_eq_None_iff)
  with n show ?thesis
    by (simp add: map_get_def map_put_def live_append map_add_def)
qed

lemma registerPlugin_initializer_throws:
  assumes "plugin_id q = Some qid" "qid \<noteq> []" "\<not> map_has (plugins s) qid"
    "initialize q = Some g" "AThrow \<in> set (fs g)"
  shows "fst (registerPlugin fs q s) = Some (Raised g)"
    and "map_get (plugins (snd (registerPlugin fs q s))) qid = Some q"
proof -
  let ?s1 = "s\<lparr>plugins := map_put qid q (plugins s)\<rparr>"
  obtain threw s2 where c: "call fs g Api ?s1 = (threw, s2)" by (cases "call fs g Api ?s1")
  from c run_body_throws [of "fs g" "?s1\<lparr>calls := calls ?s1 @ [(g, Api)]\<rparr>"] assms(5)
  have th: "threw" by (simp add: call_def)
  from c plugins_call [of fs g Api ?s1] have p: "plugins s2 = map_put qid q (plugins s)" by simp
  from assms c th
  have r: "registerPlugin fs q s = (Some (Raised g), s2)" by (simp add: registerPlugin_def)
  then show "fst (registerPlugin fs q s) = Some (Raised g)" by simp
  from r p map_get_map_put_new [OF assms(3)]
  show "map_get (plugins (snd (registerPlugin fs q s))) qid = Some q" by simp
qed

lemma onmessage_init:
  assumes i: "is_init_frame (heap s) m d cid"
  shows "onReady s = None \<Longrightarrow>
           onmessage fs (Some m) s = handleEvent fs ''system'' ''init'' d (s\<lparr>clientId := cid\<rparr>)"
    and "onReady s = Some f \<Longrightarrow> AThrow \<notin> set (fs f) \<Longrightarrow>
           onmessage fs (Some m) s =
             handleEvent fs ''system'' ''init'' d
               (snd (call fs f (Data cid) (s\<lparr>clientId := cid\<rparr>)))"
    and "onReady s = Some f \<Longrightarrow> AThrow \<in> set (fs f) \<Longrightarrow>
           onmessage fs (Some m) s =
             log ParseFailed (snd (call fs f (Data cid) (s\<lparr>clientId := cid\<rparr>)))"
    and "clientId (onmessage fs (Some m) s) = cid"
proof -
  from i have g: "get_prop (heap s) m ''namespace'' = Inr (JStr ''system'')"
    "get_prop (heap s) m ''event'' = Inr (JStr ''init'')"
    "get_prop (heap s) m ''data'' = Inr d"
    "get_prop (heap s) d ''clientId'' = Inr cid"
    by (simp_all add: is_init_frame_def)
  let ?s1 = "s\<lparr>clientId := cid\<rparr>"
  have a: "onmessage fs (Some m) s = handleEvent fs ''system'' ''init'' d ?s1"
    if "onReady s = None"
    using that g by (simp add: onmessage_def message_body_def init_handshake_def dispatch_frame_def)
  have bc: "(AThrow \<notin> set (fs f) \<longrightarrow> onmessage fs (Some m) s =
             handleEvent fs ''system'' ''init'' d (snd (call fs f (Data cid) ?s1))) \<and>
      (AThrow \<in> set (fs f) \<longrightarrow> onmessage fs (Some m) s =
             log ParseFailed (snd (call fs f (Data cid) ?s1)))"
    if r: "onReady s = Some f" for f
  proof -
    obtain threw s2 where c: "call fs f (Data cid) ?s1 = (threw, s2)"
      by (cases "call fs f (Data cid) ?s1")
    from c run_body_throws [of "fs f" "?s1\<lparr>calls := calls ?s1 @ [(f, Data cid)]\<rparr>"]
    have th: "threw = (AThrow \<in> set (fs f))" by (simp add: call_def)
    from c callback_frameD(13) [OF callback_frame_call [of ?s1 fs f "Data cid"]]
    have h2: "heap s2 = heap s" by simp
    show ?thesis
      using r g c th h2
      by (cases threw)
         (simp_all add: onmessage_def message_body_def init_handshake_def dispatch_frame_def)
  qed
  show "onReady s = None \<Longrightarrow>
           onmessage fs (Some m) s = handleEvent fs ''system'' ''init'' d ?s1"
    by (rule a)
  show "onReady s = Some f \<Longrightarrow> AThrow \<notin> set (fs f) \<Longrightarrow>
           onmessage fs (Some m) s =
             handleEvent fs ''system'' ''init'' d (snd (call fs f (Data cid) ?s1))"
    using bc by blast
  show "onReady s = Some f \<Longrightarrow> AThrow \<in> set (fs f) \<Longrightarrow>
           onmessage fs (Some m) s = log ParseFailed (snd (call fs f (Data cid) ?s1))"
    using bc by blast
  show "clientId (onmessage fs (Some m) s) = cid"
  proof (cases "onReady s")
    case None
    with a callback_frameD(7) [OF callback_frame_handleEvent [of ?s1 fs "''system''" "''init''" d]]
    show ?thesis by simp
  next
    case (Some f)
    let ?s2 = "snd (call fs f (Data cid) ?s1)"
    from callback_frameD(7) [OF callback_frame_call [of ?s1 fs f "Data cid"]]
    have c2: "clientId ?s2 = cid" by simp
    from bc [OF Some] c2
      callback_frameD(7) [OF callback_frame_handleEvent [of ?s2 fs "''system''" "''init''" d]]
    show ?thesis by (cases "AThrow \<in> set (fs f)") (simp_all add: log_def)
  qed
qed

lemma onmessage_init_without_data:
  assumes "get_prop (heap s) m ''namespace'' = Inr (JStr ''system'')"
    "get_prop (heap s) m ''event'' = Inr (JStr ''init'')"
    "get_prop (heap s) m ''data'' = Inr Undefined"
  shows "onmessage fs (Some m) s = log ParseFailed s"
  using assms by (simp add: onmessage_def message_body_def init_handshake_def)

lemma shrinks_refl: "shrinks xs xs"
  by (simp add: shrinks_def list_all2_refl)

lemma shrinks_trans: "shrinks xs ys \<Longrightarrow> shrinks ys zs \<Longrightarrow> shrinks xs zs"
  using list_all2_trans [of "\<lambda>x y. y = x \<or> y = None" "\<lambda>x y. y = x \<or> y = None"
      "\<lambda>x y. y = x \<or> y = None" xs ys zs]
  by (auto simp: shrinks_def)

lemma shrinks_set_delete: "shrinks cbs (set_delete f cbs)"
  by (simp add: shrinks_def set_delete_def list_all2_map2 list_all2_refl)

lemma shrinks_length: "shrinks xs ys \<Longrightarrow> length ys = length xs"
  by (simp add: shrinks_def list_all2_lengthD)

lemma shrinks_nth: "shrinks xs ys \<Longrightarrow> i < length xs \<Longrightarrow> ys ! i = xs ! i \<or> ys ! i = None"
  by (auto simp: shrinks_def dest: list_all2_nthD)

lemma shrinks_drop: "shrinks xs ys \<Longrightarrow> shrinks (drop i xs) (drop i ys)"
  by (simp add: shrinks_def list_all2_dropI)

lemma shrinks_live_set: "shrinks xs ys \<Longrightarrow> set (live ys) \<subseteq> set (live xs)"
  unfolding shrinks_def
proof (induction xs ys rule: list_all2_induct)
  case Nil
  then show ?case by simp
next
  case (Cons x xs y ys)
  then show ?case by (cases x; cases y) auto
qed

lemma live_set: "set (live xs) = {x. Some x \<in> set xs}"
  by (induction xs rule: live.induct) auto

lemma shrinks_live_distinct: "shrinks xs ys \<Longrightarrow> distinct (live xs) \<Longrightarrow> distinct (live ys)"
  unfolding shrinks_def
proof (induction xs ys rule: list_all2_induct)
  case Nil
  then show ?case by simp
next
  case (Cons x xs y ys)
  from Cons.hyps(2) have "set (live ys) \<subseteq> set (live xs)"
    by (rule shrinks_live_set [unfolded shrinks_def])
  with Cons show ?case by (cases x; cases y) auto
qed

lemma registry_shrinks_refl: "registry_shrinks s s"
  by (simp add: registry_shrinks_def option.rel_refl shrinks_refl)

lemma registry_shrinks_same:
  "eventHandlers s' = eventHandlers s \<Longrightarrow> registry_shrinks s s'"
  by (simp add: registry_shrinks_def callbacks_of_def option.rel_refl shrinks_refl)

lemma registry_shrinks_trans:
  "registry_shrinks a b \<Longrightarrow> registry_shrinks b c \<Longrightarrow> registry_shrinks a c"
  unfolding registry_shrinks_def
proof (intro allI)
  fix ns ev
  assume 1: "\<forall>ns ev. rel_option shrinks (callbacks_of a ns ev) (callbacks_of b ns ev)"
    and 2: "\<forall>ns ev. rel_option shrinks (callbacks_of b ns ev) (callbacks_of c ns ev)"
  from 1 have x: "rel_option shrinks (callbacks_of a ns ev) (callbacks_of b ns ev)" by blast
  from 2 have y: "rel_option shrinks (callbacks_of b ns ev) (callbacks_of c ns ev)" by blast
  from x y show "rel_option shrinks (callbacks_of a ns ev) (callbacks_of c ns ev)"
    by (cases "callbacks_of a ns ev"; cases "callbacks_of b ns ev"; cases "callbacks_of c ns ev")
       (auto intro: shrinks_trans)
qed

lemma registry_shrinks_unregister: "registry_shrinks s (unregister n e f s)"
  unfolding registry_shrinks_def
proof (intro allI)
  fix ns ev
  show "rel_option shrinks (callbacks_of s ns ev) (callbacks_of (unregister n e f s) ns ev)"
    by (cases "callbacks_of s ns ev")
       (auto simp: callbacks_of_unregister shrinks_refl shrinks_set_delete)
qed

lemma registry_ok_shrinks: "registry_ok s \<Longrightarrow> registry_shrinks s s' \<Longrightarrow> registry_ok s'"
  unfolding registry_ok_def registry_shrinks_def
proof (intro allI impI)
  fix ns ev c1
  assume ok: "\<forall>ns ev cbs. callbacks_of s ns ev = Some cbs \<longrightarrow> distinct (live cbs)"
    and sh: "\<forall>ns ev. rel_option shrinks (callbacks_of s ns ev) (callbacks_of s' ns ev)"
    and c1: "callbacks_of s' ns ev = Some c1"
  from sh have "rel_option shrinks (callbacks_of s ns ev) (callbacks_of s' ns ev)" by blast
  with c1 obtain cbs where "callbacks_of s ns ev = Some cbs" "shrinks cbs c1"
    by (cases "callbacks_of s ns ev") auto
  with ok shrinks_live_distinct show "distinct (live c1)" by blast
qed

lemma benign_refl: "benign s s"
  by (simp add: benign_def registry_shrinks_refl)

lemma benign_trans: "benign a b \<Longrightarrow> benign b c \<Longrightarrow> benign a c"
  by (auto simp: benign_def intro: registry_shrinks_trans)

lemma benign_same:
  "eventHandlers s' = eventHandlers s \<Longrightarrow> plugins s' = plugins s \<Longrightarrow>
   metadata s' = metadata s \<Longrightarrow> heap s' = heap s \<Longrightarrow> benign s s'"
  by (simp add: benign_def registry_shrinks_same)

lemma benign_unregister: "benign s (unregister n e f s)"
  by (simp add: benign_def registry_shrinks_unregister)
     (simp add: unregister_def split: option.splits)

lemma benign_run_body: "benign s (snd (run_body as s))"
proof (induction as s rule: run_body.induct)
  case (3 ns ev f as s)
  from benign_trans [OF benign_unregister 3] show ?case by simp
qed (simp_all add: benign_refl)

lemma benign_call: "benign s (snd (call fs f a s))"
proof -
  have "benign s (s\<lparr>calls := calls s @ [(f, a)]\<rparr>)" by (simp add: benign_same)
  from benign_trans [OF this benign_run_body] show ?thesis by (simp add: call_def)
qed

lemma benign_log: "benign s (log l s)"
  by (simp add: benign_same log_def)

lemma benign_call_handler: "benign s (call_handler fs ns ev f d s)"
proof (cases "call fs f (Data d) s")
  case (Pair threw s')
  with benign_call [of s fs f "Data d"] have f: "benign s s'" by simp
  from Pair f benign_trans [OF f benign_log] show ?thesis
    by (cases threw) (simp_all add: call_handler_def)
qed

lemma benign_handleEvent: "benign s (handleEvent fs ns ev d s)"
  by (rule handleEvent_rel [of benign, OF benign_refl benign_trans benign_call_handler])

lemma session_ok_benign: "session_ok s \<Longrightarrow> benign s s' \<Longrightarrow> session_ok s'"
  by (auto simp: session_ok_def benign_def intro: registry_ok_shrinks)

lemma teardown_loop_rel:
  assumes rf: "\<And>s. R s s"
    and tr: "\<And>a b c. R a b \<Longrightarrow> R b c \<Longrightarrow> R a c"
    and st: "\<And>s pid. R s (unregisterPlugin fs pid s)"
  shows "R s (teardown_loop fs i s)"
  using assms
proof (induction fs i s rule: teardown_loop.induct)
  case (1 fs i s)
  note rf = "1.prems"(1) and tr = "1.prems"(2) and st = "1.prems"(3)
  show ?case
  proof (cases "i < length (plugins s)")
    case False
    then show ?thesis by (simp add: teardown_loop.simps [of fs i s] rf)
  next
    case True
    show ?thesis
    proof (cases "plugins s ! i")
      case None
      from "1.IH"(1) [OF True None rf tr st] True None
      show ?thesis by (simp add: teardown_loop.simps [of fs i s])
    next
      case (Some e)
      obtain pid p where e: "e = (pid, p)" by (cases e)
      from "1.IH"(2) [OF True Some [unfolded e] refl rf tr st]
      have "R (unregisterPlugin fs pid s) (teardown_loop fs (Suc i) (unregisterPlugin fs pid s))" .
      from tr [OF st this] True Some e
      show ?thesis by (simp add: teardown_loop.simps [of fs i s])
    qed
  qed
qed

lemma benign_connect: "benign s (connect s)"
  by (rule benign_same) (simp_all add: connect_def new_socket_def)

lemma benign_set_sock_state: "benign s (set_sock_state i r s)"
  by (rule benign_same) (simp_all add: set_sock_state_def)

lemma benign_send: "benign s (snd (send ns ev d s))"
  by (rule benign_same) (simp_all add: send_def sock_send_def split: option.splits sum.splits)

lemma benign_ready: "benign s (snd (ready fs cb s))"
proof (cases "truthy (clientId s)")
  case False
  then show ?thesis by (simp add: ready_def benign_same)
next
  case True
  obtain threw s' where c: "call fs cb (Data (clientId s)) s = (threw, s')"
    by (cases "call fs cb (Data (clientId s)) s")
  with benign_call [of s fs cb "Data (clientId s)"] True show ?thesis
    by (cases threw) (simp_all add: ready_def)
qed

lemma benign_onopen: "benign s (onopen fs s)"
proof -
  let ?s2 = "case reconnectTimer s of None \<Rightarrow> s\<lparr>isConnecting := False\<rparr>
     | Some t \<Rightarrow> (clearTimeout t (s\<lparr>isConnecting := False\<rparr>))\<lparr>reconnectTimer := None\<rparr>"
  have a: "benign s ?s2"
    by (rule benign_same) (simp_all add: clearTimeout_def split: option.splits)
  have o: "onopen fs s = handleEvent fs ''system'' ''connected'' Null ?s2"
    by (simp add: onopen_def Let_def)
  from benign_trans [OF a benign_handleEvent] o show ?thesis by simp
qed

lemma benign_onclose: "benign s (onclose fs s)"
proof -
  let ?s1 = "s\<lparr>isConnecting := False, clientId := Null\<rparr>"
  let ?s2 = "handleEvent fs ''system'' ''disconnected'' Null ?s1"
  have a: "benign s ?s1" by (rule benign_same) simp_all
  note b = benign_trans [OF a benign_handleEvent [of ?s1 fs "''system''" "''disconnected''" Null]]
  have c: "benign ?s2 (onclose fs s)"
    by (rule benign_same) (simp_all add: onclose_def Let_def setTimeout_def)
  from benign_trans [OF b c] show ?thesis .
qed

lemma benign_onerror: "benign s (onerror fs err s)"
  by (simp add: onerror_def benign_handleEvent)

lemma benign_dispatch_frame: "benign s (dispatch_frame fs ns ev d s)"
  by (simp add: dispatch_frame_def benign_refl benign_handleEvent split: jsval.splits)

lemma benign_init_handshake:
  assumes "init_handshake fs m s = (e, s1)"
  shows "benign s s1"
proof (cases "\<exists>d cid. get_prop (heap s) m ''data'' = Inr d \<and> get_prop (heap s) d ''clientId'' = Inr cid")
  case False
  with assms have "s1 = s"
    by (auto simp: init_handshake_def split: sum.splits)
  then show ?thesis by (simp add: benign_refl)
next
  case True
  then obtain d cid where g: "get_prop (heap s) m ''data'' = Inr d"
    "get_prop (heap s) d ''clientId'' = Inr cid" by blast
  let ?s1 = "s\<lparr>clientId := cid\<rparr>"
  have f1: "benign s ?s1" by (rule benign_same) simp_all
  show ?thesis
  proof (cases "onReady s")
    case None
    with g assms f1 show ?thesis by (auto simp: init_handshake_def)
  next
    case (Some f)
    obtain threw s2 where c: "call fs f (Data cid) ?s1 = (threw, s2)"
      by (cases "call fs f (Data cid) ?s1")
    with benign_call [of ?s1 fs f "Data cid"] have "benign ?s1 s2" by simp
    from benign_trans [OF f1 this] g Some c assms
    show ?thesis by (cases threw) (auto simp: init_handshake_def)
  qed
qed

lemma benign_message_body: "benign s (snd (message_body fs m s))"
proof -
  obtain e1 s1 where h: "init_handshake fs m s = (e1, s1)"
    by (cases "init_handshake fs m s")
  note f1 = benign_init_handshake [OF h]
  have f2: "\<And>ns ev d. benign s (dispatch_frame fs ns ev d s1)"
    using benign_trans [OF f1 benign_dispatch_frame] .
  show ?thesis
    unfolding message_body_def using h f1 f2 benign_dispatch_frame [of s]
    by (auto simp: benign_refl split: sum.splits option.splits)
qed

lemma benign_onmessage: "benign s (onmessage fs parsed s)"
proof (cases parsed)
  case None
  then show ?thesis by (simp add: onmessage_def benign_log)
next
  case (Some m)
  obtain e s' where b: "message_body fs m s = (e, s')" by (cases "message_body fs m s")
  with benign_message_body [of s fs m] have f: "benign s s'" by simp
  with Some b benign_trans [OF f benign_log]
  show ?thesis by (cases e) (simp_all add: onmessage_def)
qed

lemma benign_timer_fires: "benign s (timer_fires t s)"
proof -
  have "benign s (clearTimeout t s)" by (rule benign_same) (simp_all add: clearTimeout_def)
  from benign_trans [OF this benign_connect] show ?thesis
    by (simp add: timer_fires_def benign_refl)
qed

lemma callbacks_of_registerEvent:
  "callbacks_of (registerEvent ns ev cb s) n e =
     (if n = ns \<and> e = ev
      then Some (set_add cb (case callbacks_of s ns ev of None \<Rightarrow> [] | Some c \<Rightarrow> c))
      else callbacks_of s n e)"
  by (auto simp: callbacks_of_def registerEvent_def Let_def split: option.splits)

lemma distinct_live_set_add: "distinct (live cbs) \<Longrightarrow> distinct (live (set_add cb cbs))"
  by (auto simp: set_add_def live_append live_set)

lemma session_ok_registerEvent:
  assumes "session_ok s"
  shows "session_ok (registerEvent ns ev cb s)"
proof -
  have "registry_ok (registerEvent ns ev cb s)"
    unfolding registry_ok_def
  proof (intro allI impI)
    fix n e cbs
    assume c: "callbacks_of (registerEvent ns ev cb s) n e = Some cbs"
    from assms have ok: "\<And>c. callbacks_of s n e = Some c \<Longrightarrow> distinct (live c)"
      by (simp add: session_ok_def registry_ok_def)
    show "distinct (live cbs)"
    proof (cases "n = ns \<and> e = ev")
      case False
      with c ok show ?thesis by (simp add: callbacks_of_registerEvent)
    next
      case True
      with c ok [of "the (callbacks_of s ns ev)"] show ?thesis
        by (cases "callbacks_of s ns ev")
           (auto simp: callbacks_of_registerEvent intro: distinct_live_set_add)
    qed
  qed
  moreover have "plugins (registerEvent ns ev cb s) = plugins s"
    "metadata (registerEvent ns ev cb s) = metadata s" "heap (registerEvent ns ev cb s) = heap s"
    by (simp_all add: registerEvent_def Let_def)
  ultimately show ?thesis using assms by (simp add: session_ok_def)
qed

lemma session_ok_plugins_update:
  "session_ok s \<Longrightarrow> distinct (map fst (live m)) \<Longrightarrow> session_ok (s\<lparr>plugins := m\<rparr>)"
  by (simp add: session_ok_def registry_ok_def callbacks_of_def)

lemma session_ok_registerPlugin:
  assumes "session_ok s"
  shows "session_ok (snd (registerPlugin fs p s))"
proof (cases "\<exists>pid. plugin_id p = Some pid \<and> pid \<noteq> [] \<and> \<not> map_has (plugins s) pid")
  case False
  with assms show ?thesis
    by (cases "plugin_id p") (auto simp: registerPlugin_def)
next
  case True
  then obtain pid where pid: "plugin_id p = Some pid" "pid \<noteq> []" "\<not> map_has (plugins s) pid"
    by blast
  let ?s1 = "s\<lparr>plugins := map_put pid p (plugins s)\<rparr>"
  from assms pid(3) have "distinct (map fst (live (map_put pid p (plugins s))))"
    by (simp add: session_ok_def map_put_def live_append map_has_def)
  from session_ok_plugins_update [OF assms this] have ok1: "session_ok ?s1" .
  show ?thesis
  proof (cases "initialize p")
    case None
    with pid ok1 show ?thesis by (simp add: registerPlugin_def)
  next
    case (Some f)
    obtain threw s2 where c: "call fs f Api ?s1 = (threw, s2)" by (cases "call fs f Api ?s1")
    with benign_call [of ?s1 fs f Api] have "benign ?s1 s2" by simp
    from session_ok_benign [OF ok1 this] pid Some c
    show ?thesis by (cases threw) (simp_all add: registerPlugin_def)
  qed
qed

lemma session_ok_unregisterPlugin:
  assumes "session_ok s"
  shows "session_ok (unregisterPlugin fs pid s)"
proof (cases "map_get (plugins s) pid")
  case None
  with assms show ?thesis by (simp add: unregisterPlugin_def)
next
  case (Some p)
  define s1 where "s1 = (case cleanup p of None \<Rightarrow> s
      | Some f \<Rightarrow> (case call fs f NoArg s of (True, s') \<Rightarrow> log (CleanupError pid) s'
                   | (False, s') \<Rightarrow> s'))"
  have f1: "benign s s1"
  proof (cases "cleanup p")
    case None
    then show ?thesis by (simp add: s1_def benign_refl)
  next
    case (Some f)
    obtain threw s' where c: "call fs f NoArg s = (threw, s')" by (cases "call fs f NoArg s")
    with benign_call [of s fs f NoArg] have "benign s s'" by simp
    with benign_trans [OF this benign_log] c Some
    show ?thesis by (cases threw) (simp_all add: s1_def)
  qed
  from session_ok_benign [OF assms f1] have ok1: "session_ok s1" .
  then have "distinct (map fst (live (map_delete pid (plugins s1))))"
    by (simp add: session_ok_def live_map_delete distinct_map_filter)
  from session_ok_plugins_update [OF ok1 this] Some show ?thesis
    by (simp add: unregisterPlugin_def s1_def Let_def)
qed

lemma session_ok_teardown_loop: "session_ok s \<Longrightarrow> session_ok (teardown_loop fs i s)"
  using teardown_loop_rel [of "\<lambda>s s'. session_ok s \<longrightarrow> session_ok s'" fs s i]
    session_ok_unregisterPlugin
  by blast

lemma session_ok_disconnect:
  assumes "session_ok s"
  shows "session_ok (disconnect fs s)"
proof -
  let ?s1 = "case reconnectTimer s of None \<Rightarrow> s
     | Some t \<Rightarrow> (clearTimeout t s)\<lparr>reconnectTimer := None\<rparr>"
  have "benign s ?s1"
    by (rule benign_same) (simp_all add: clearTimeout_def split: option.splits)
  from session_ok_benign [OF assms this] have ok1: "session_ok ?s1" .
  have w: "ws ?s1 = ws s" by (simp add: clearTimeout_def split: option.splits)
  show ?thesis
  proof (cases "ws s")
    case None
    with w ok1 show ?thesis by (simp add: disconnect_def Let_def)
  next
    case (Some i)
    let ?s4 = "(sock_close i (?s1\<lparr>autoReconnect := False\<rparr>))\<lparr>ws := None, clientId := Null\<rparr>"
    let ?s5 = "teardown_loop fs 0 ?s4"
    have "benign ?s1 ?s4"
      by (rule benign_same) (simp_all add: sock_close_def set_sock_state_def)
    from session_ok_teardown_loop [OF session_ok_benign [OF ok1 this]]
    have "session_ok ?s5" .
    from session_ok_plugins_update [OF this, of "map_clear (plugins ?s5)"]
    have "session_ok (?s5\<lparr>plugins := map_clear (plugins ?s5)\<rparr>)"
      by (simp add: live_map_clear)
    with Some w show ?thesis by (simp add: disconnect_def Let_def)
  qed
qed

lemma session_ok_heap_ops:
  "session_ok s \<Longrightarrow> session_ok (setMetadata m s)"
  "session_ok s \<Longrightarrow> session_ok (snd (getMetadata s))"
  "session_ok s \<Longrightarrow> session_ok (s\<lparr>heap := heap s @ [ps]\<rparr>)"
  "session_ok s \<Longrightarrow> session_ok (write_prop a k v s)"
  by (simp_all add: session_ok_def registry_ok_def callbacks_of_def setMetadata_def
      getMetadata_def write_prop_def)

lemma session_ok_step: "session_ok s \<Longrightarrow> session_ok (step fs s op)"
proof (cases op)
  case Connect
  assume "session_ok s"
  with Connect session_ok_benign [OF _ benign_connect] show ?thesis by simp
next
  case Disconnect
  assume "session_ok s"
  with Disconnect session_ok_disconnect show ?thesis by simp
next
  case (RegisterEvent ns ev cb)
  assume "session_ok s"
  with RegisterEvent session_ok_registerEvent show ?thesis by simp
next
  case (Unregister ns ev cb)
  assume "session_ok s"
  with Unregister session_ok_benign [OF _ benign_unregister] show ?thesis by simp
next
  case (Send ns ev d)
  assume "session_ok s"
  with Send session_ok_benign [OF _ benign_send] show ?thesis by simp
next
  case (SetMetadata m)
  assume "session_ok s"
  with SetMetadata session_ok_heap_ops(1) show ?thesis by simp
next
  case GetMetadata
  assume "session_ok s"
  with GetMetadata session_ok_heap_ops(2) show ?thesis by simp
next
  case (Ready cb)
  assume "session_ok s"
  with Ready session_ok_benign [OF _ benign_ready] show ?thesis by simp
next
  case (RegisterPlugin p)
  assume "session_ok s"
  with RegisterPlugin session_ok_registerPlugin show ?thesis by simp
next
  case (UnregisterPlugin pid)
  assume "session_ok s"
  with UnregisterPlugin session_ok_unregisterPlugin show ?thesis by simp
next
  case (SockOpen i)
  assume "session_ok s"
  with SockOpen session_ok_benign [OF _ benign_trans [OF benign_set_sock_state benign_onopen]]
  show ?thesis by simp
next
  case (SockClose i)
  assume "session_ok s"
  with SockClose session_ok_benign [OF _ benign_trans [OF benign_set_sock_state benign_onclose]]
  show ?thesis by simp
next
  case (SockError i err)
  assume "session_ok s"
  with SockError session_ok_benign [OF _ benign_onerror] show ?thesis by simp
next
  case (SockMessage i parsed)
  assume "session_ok s"
  with SockMessage session_ok_benign [OF _ benign_onmessage] show ?thesis by simp
next
  case (TimerFires t)
  assume "session_ok s"
  with TimerFires session_ok_benign [OF _ benign_timer_fires] show ?thesis by simp
next
  case (NewObject ps)
  assume "session_ok s"
  with NewObject session_ok_heap_ops(3) show ?thesis by simp
next
  case (WriteProp a k v)
  assume "session_ok s"
  with WriteProp session_ok_heap_ops(4) show ?thesis by simp
qed

lemma session_ok_run: "session_ok s \<Longrightarrow> session_ok (run fs s ops)"
  by (induction ops arbitrary: s) (simp_all add: run_def session_ok_step)

lemma session_ok_new: "session_ok (LibrandaClient win opts)"
  by (simp add: session_ok_def registry_ok_def callbacks_of_def LibrandaClient_def)

text \<open>Dispatch with callbacks that unregister, throw, and register for other pairs.\<close>

lemma live_kill: "live (kill gs es) = filter (\<lambda>g. g \<notin> set gs) (live es)"
  by (induction es rule: live.induct) (simp_all add: kill_def)

lemma kill_kill: "kill hs (kill gs es) = kill (gs @ hs) es"
  by (induction es) (auto simp: kill_def split: option.splits)

lemma set_delete_kill: "set_delete f es = kill [f] es"
  by (induction es) (auto simp: kill_def set_delete_def split: option.splits)

lemma kill_nil: "kill [] es = es"
  by (induction es) (auto simp: kill_def split: option.splits)

lemma length_kill: "length (kill gs es) = length es"
  by (simp add: kill_def)

lemma drop_kill: "drop i (kill gs es) = kill gs (drop i es)"
  by (simp add: kill_def drop_map)

lemma nth_kill: "i < length es \<Longrightarrow> kill gs es ! i = (case es ! i of None \<Rightarrow> None | Some g \<Rightarrow> if g \<in> set gs then None else Some g)"
  by (simp add: kill_def)

lemma callbacks_run_rbody:
  "\<not> registers_to ns ev as \<Longrightarrow>
   callbacks_of (snd (run_rbody as s)) ns ev =
     map_option (kill (removed ns ev as)) (callbacks_of s ns ev)"
proof (induction as s rule: run_rbody.induct)
  case (1 s)
  then show ?case by (cases "callbacks_of s ns ev") (simp_all add: kill_nil)
next
  case (2 as s)
  then show ?case by (cases "callbacks_of s ns ev") (simp_all add: kill_nil)
next
  case (3 n e f as s)
  then show ?case
    by (cases "callbacks_of s ns ev")
       (auto simp: callbacks_of_unregister set_delete_kill kill_kill)
next
  case (4 n e f as s)
  then show ?case by (auto simp: callbacks_of_registerEvent)
qed

lemma calls_unregister: "calls (unregister ns ev f s) = calls s"
  by (simp add: unregister_def split: option.splits)

lemma console_unregister: "console (unregister ns ev f s) = console s"
  by (simp add: unregister_def split: option.splits)

lemma calls_registerEvent: "calls (registerEvent ns ev f s) = calls s"
  by (simp add: registerEvent_def Let_def)

lemma console_registerEvent: "console (registerEvent ns ev f s) = console s"
  by (simp add: registerEvent_def Let_def)

lemma run_rbody_trace:
  "calls (snd (run_rbody as s)) = calls s \<and> console (snd (run_rbody as s)) = console s \<and>
   fst (run_rbody as s) = throws as"
  by (induction as s rule: run_rbody.induct)
     (simp_all add: calls_unregister console_unregister calls_registerEvent console_registerEvent)

lemma rcall_handler_effect:
  assumes "\<not> registers_to ns ev (rs f)"
  shows "callbacks_of (rcall_handler rs ns ev f d s) ns ev =
           map_option (kill (removed ns ev (rs f))) (callbacks_of s ns ev)"
    and "calls (rcall_handler rs ns ev f d s) = calls s @ [(f, Data d)]"
    and "console (rcall_handler rs ns ev f d s) =
           console s @ (if throws (rs f) then [HandlerError ns ev] else [])"
proof -
  let ?s0 = "s\<lparr>calls := calls s @ [(f, Data d)]\<rparr>"
  let ?r = "run_rbody (rs f) ?s0"
  have c0: "callbacks_of ?s0 ns ev = callbacks_of s ns ev" by (simp add: callbacks_of_def)
  have r: "rcall_handler rs ns ev f d s = (if throws (rs f) then log (HandlerError ns ev) (snd ?r) else snd ?r)"
    using run_rbody_trace [of "rs f" ?s0]
    by (cases ?r) (auto simp: rcall_handler_def rcall_def)
  have cl: "callbacks_of (log l t) ns ev = callbacks_of t ns ev" for l t
    by (simp add: log_def callbacks_of_def)
  show "callbacks_of (rcall_handler rs ns ev f d s) ns ev =
           map_option (kill (removed ns ev (rs f))) (callbacks_of s ns ev)"
    using callbacks_run_rbody [OF assms, of ?s0] c0 by (simp add: r cl)
  show "calls (rcall_handler rs ns ev f d s) = calls s @ [(f, Data d)]"
    using run_rbody_trace [of "rs f" ?s0] by (simp add: r log_def)
  show "console (rcall_handler rs ns ev f d s) =
           console s @ (if throws (rs f) then [HandlerError ns ev] else [])"
    using run_rbody_trace [of "rs f" ?s0] by (simp add: r log_def)
qed

lemma handle_loop_reg_order:
  assumes "callbacks_of s ns ev = Some cbs"
    and "\<forall>f \<in> set (live (drop i cbs)). \<not> registers_to ns ev (rs f)"
  shows "\<exists>s'. handle_loop_reg rs ns ev d i s = Some s' \<and>
           dispatched rs ns ev d (dispatch_order rs ns ev (live (drop i cbs))) cbs s s'"
  using assms
proof (induction "length cbs - i" arbitrary: i s cbs)
  case 0
  then have "\<not> i < length cbs" by simp
  with 0 show ?case
    by (simp add: handle_loop_reg.simps [of rs ns ev d i s] dispatched_def kill_nil)
next
  case (Suc n)
  then have i: "i < length cbs" by simp
  then have dr: "drop i cbs = cbs ! i # drop (Suc i) cbs" by (simp add: Cons_nth_drop_Suc)
  show ?case
  proof (cases "cbs ! i")
    case None
    with dr have l: "live (drop i cbs) = live (drop (Suc i) cbs)" by simp
    have "n = length cbs - Suc i" using Suc(2) by simp
    from Suc(1) [OF this Suc(3)] Suc(4) l
    obtain s' where "handle_loop_reg rs ns ev d (Suc i) s = Some s'"
      "dispatched rs ns ev d (dispatch_order rs ns ev (live (drop (Suc i) cbs))) cbs s s'"
      by auto
    with None i Suc(3) l show ?thesis
      by (simp add: handle_loop_reg.simps [of rs ns ev d i s])
  next
    case (Some f)
    let ?K = "removed ns ev (rs f)"
    let ?s1 = "rcall_handler rs ns ev f d s"
    let ?cbs1 = "kill ?K cbs"
    let ?rest = "filter (\<lambda>g. g \<notin> set ?K) (live (drop (Suc i) cbs))"
    from Some dr have l: "live (drop i cbs) = f # live (drop (Suc i) cbs)" by simp
    with Suc(4) have nf: "\<not> registers_to ns ev (rs f)" by simp
    from rcall_handler_effect [where rs = rs and f = f and ns = ns and ev = ev and d = d and s = s] nf Suc(3)
    have c1: "callbacks_of ?s1 ns ev = Some ?cbs1"
      and k1: "calls ?s1 = calls s @ [(f, Data d)]"
      and o1: "console ?s1 = console s @ (if throws (rs f) then [HandlerError ns ev] else [])"
      by simp_all
    have l1: "live (drop (Suc i) ?cbs1) = ?rest" by (simp add: drop_kill live_kill)
    have n1: "n = length ?cbs1 - Suc i" using Suc(2) by (simp add: length_kill)
    have h1: "\<forall>g \<in> set (live (drop (Suc i) ?cbs1)). \<not> registers_to ns ev (rs g)"
      using Suc(4) l l1 by simp
    from Suc(1) [OF n1 c1 h1] l1
    obtain s' where s': "handle_loop_reg rs ns ev d (Suc i) ?s1 = Some s'"
      "dispatched rs ns ev d (dispatch_order rs ns ev ?rest) ?cbs1 ?s1 s'"
      by auto
    have "handle_loop_reg rs ns ev d i s = Some s'"
      using Some i Suc(3) s'(1) by (simp add: handle_loop_reg.simps [of rs ns ev d i s])
    moreover have "dispatched rs ns ev d (dispatch_order rs ns ev (live (drop i cbs))) cbs s s'"
      using s'(2) k1 o1 by (simp add: dispatched_def l kill_kill)
    ultimately show ?thesis by blast
  qed
qed

lemma dispatch_order_subset: "set (dispatch_order rs ns ev xs) \<subseteq> set xs"
  by (induction rs ns ev xs rule: dispatch_order.induct) auto

lemma dispatch_order_distinct: "distinct xs \<Longrightarrow> distinct (dispatch_order rs ns ev xs)"
proof (induction rs ns ev xs rule: dispatch_order.induct)
  case (2 rs ns ev f rest)
  then show ?case using dispatch_order_subset [of rs ns ev "filter (\<lambda>g. g \<notin> set (removed ns ev (rs f))) rest"]
    by auto
qed simp

lemma dispatch_order_reaches:
  "g \<in> set xs \<Longrightarrow> \<forall>f \<in> set xs. f \<noteq> g \<longrightarrow> g \<notin> set (removed ns ev (rs f)) \<Longrightarrow>
   g \<in> set (dispatch_order rs ns ev xs)"
  by (induction rs ns ev xs rule: dispatch_order.induct) auto

lemma dispatch_order_all:
  "\<forall>f \<in> set xs. removed ns ev (rs f) = [] \<Longrightarrow> dispatch_order rs ns ev xs = xs"
  by (induction rs ns ev xs rule: dispatch_order.induct) auto

lemma registered_registerEvent:
  "registered (registerEvent n e cb s) ns ev =
     (if n = ns \<and> e = ev
      then (if cb \<in> set (registered s ns ev) then registered s ns ev
            else registered s ns ev @ [cb])
      else registered s ns ev)"
  by (auto simp: registered_def callbacks_of_registerEvent set_add_def live_append live_set
           split: option.splits)

lemma registered_unregister:
  "registered (unregister n e cb s) ns ev =
     (if n = ns \<and> e = ev then filter (\<lambda>g. g \<noteq> cb) (registered s ns ev)
      else registered s ns ev)"
  by (auto simp: registered_def callbacks_of_unregister set_delete_kill live_kill
           split: option.splits)

lemma registered_new: "registered (LibrandaClient win opts) ns ev = []"
  by (simp add: registered_def callbacks_of_def LibrandaClient_def)

lemma registered_distinct: "session_ok s \<Longrightarrow> distinct (registered s ns ev)"
  by (auto simp: session_ok_def registry_ok_def registered_def split: option.splits)

lemma handleEvent_reg_order:
  assumes "\<forall>f \<in> set (registered s ns ev). \<not> registers_to ns ev (rs f)"
  shows "\<exists>s'. handleEvent_reg rs ns ev d s = Some s' \<and>
           calls s' = calls s @ map (\<lambda>f. (f, Data d)) (dispatch_order rs ns ev (registered s ns ev)) \<and>
           console s' = console s @ map (\<lambda>f. HandlerError ns ev)
                          (filter (\<lambda>f. throws (rs f)) (dispatch_order rs ns ev (registered s ns ev))) \<and>
           registered s' ns ev =
             filter (\<lambda>g. g \<notin> (\<Union>f \<in> set (dispatch_order rs ns ev (registered s ns ev)).
                                   set (removed ns ev (rs f))))
               (registered s ns ev)"
proof (cases "callbacks_of s ns ev")
  case None
  then have "handleEvent_reg rs ns ev d s = Some s"
    by (auto simp: handleEvent_reg_def callbacks_of_def split: option.splits)
  with None show ?thesis by (simp add: registered_def)
next
  case (Some cbs)
  then have h: "handleEvent_reg rs ns ev d s = handle_loop_reg rs ns ev d 0 s"
    by (auto simp: handleEvent_reg_def callbacks_of_def split: option.splits)
  from Some have r: "registered s ns ev = live cbs" by (simp add: registered_def)
  from handle_loop_reg_order [OF Some, of 0 rs d] assms r
  obtain s' where s': "handle_loop_reg rs ns ev d 0 s = Some s'"
    "dispatched rs ns ev d (dispatch_order rs ns ev (live cbs)) cbs s s'"
    by auto
  from s'(2) have "registered s' ns ev =
      filter (\<lambda>g. g \<notin> (\<Union>f \<in> set (dispatch_order rs ns ev (live cbs)). set (removed ns ev (rs f)))) (live cbs)"
    by (simp add: dispatched_def registered_def live_kill)
  with s' h r show ?thesis by (auto simp: dispatched_def)
qed

lemma run_rbody_embed: "run_rbody (map embed as) s = run_body as s"
  by (induction as s rule: run_body.induct) simp_all

lemma rcall_handler_embed:
  "rcall_handler (\<lambda>f. map embed (fs f)) ns ev f d s = call_handler fs ns ev f d s"
  by (simp add: rcall_handler_def rcall_def call_handler_def call_def run_rbody_embed)

lemma handle_loop_reg_embed:
  "handle_loop_reg (\<lambda>f. map embed (fs f)) ns ev d i s = Some (handle_loop fs ns ev d i s)"
proof (induction fs ns ev d i s rule: handle_loop.induct)
  case (1 fs ns ev d i s)
  show ?case
  proof (cases "callbacks_of s ns ev")
    case None
    then show ?thesis
      by (simp add: handle_loop.simps [of fs ns ev d i s]
                    handle_loop_reg.simps [of _ ns ev d i s])
  next
    case (Some cbs)
    show ?thesis
    proof (cases "i < length cbs")
      case False
      with Some show ?thesis
        by (simp add: handle_loop.simps [of fs ns ev d i s]
                      handle_loop_reg.simps [of _ ns ev d i s])
    next
      case True
      show ?thesis
      proof (cases "cbs ! i")
        case None
        with Some True "1.IH"(1) show ?thesis
          by (simp add: handle_loop.simps [of fs ns ev d i s]
                        handle_loop_reg.simps [of _ ns ev d i s])
      next
        case (Some f)
        with \<open>callbacks_of s ns ev = Some cbs\<close> True "1.IH"(2) show ?thesis
          by (simp add: handle_loop.simps [of fs ns ev d i s]
                        handle_loop_reg.simps [of _ ns ev d i s] rcall_handler_embed)
      qed
    qed
  qed
qed

lemma handleEvent_reg_embed:
  "handleEvent_reg (\<lambda>f. map embed (fs f)) ns ev d s = Some (handleEvent fs ns ev d s)"
  by (simp add: handleEvent_reg_def handleEvent_def handle_loop_reg_embed split: option.splits)


text \<open>A callback that unregisters and registers itself again is visited without end.\<close>

lemma restless_step:
  assumes "callbacks_of s ''chat'' ''message'' = Some (replicate n None @ [Some 31])"
  shows "callbacks_of (rcall_handler restless ''chat'' ''message'' 31 d s) ''chat'' ''message'' =
           Some (replicate (Suc n) None @ [Some 31])"
proof -
  let ?s0 = "s\<lparr>calls := calls s @ [(31, Data d)]\<rparr>"
  have c0: "callbacks_of ?s0 ''chat'' ''message'' = Some (replicate n None @ [Some 31])"
    using assms by (simp add: callbacks_of_def)
  have d: "set_delete (31 :: fn) (replicate n None @ [Some 31]) = replicate (Suc n) None"
    by (simp add: set_delete_def replicate_append_same)
  have a: "set_add (31 :: fn) (replicate (Suc n) None) = replicate (Suc n) None @ [Some 31]"
    by (auto simp: set_add_def)
  have "rcall_handler restless ''chat'' ''message'' 31 d s =
          registerEvent ''chat'' ''message'' 31 (unregister ''chat'' ''message'' 31 ?s0)"
    by (simp add: rcall_handler_def rcall_def restless_def)
  then show ?thesis
    using c0 by (simp only: callbacks_of_registerEvent callbacks_of_unregister)
                (simp add: d a del: replicate_Suc)
qed

lemma restless_never_returns:
  assumes "handle_loop_reg rs ns ev d i s = Some y"
  shows "\<not> (rs = restless \<and> ns = ''chat'' \<and> ev = ''message'' \<and>
            (\<exists>n. callbacks_of s ''chat'' ''message'' = Some (replicate n None @ [Some 31]) \<and> i \<le> n))"
proof (rule handle_loop_reg.raw_induct
    [where P = "\<lambda>rs ns ev d i s y. \<not> (rs = restless \<and> ns = ''chat'' \<and> ev = ''message'' \<and>
            (\<exists>n. callbacks_of s ''chat'' ''message'' = Some (replicate n None @ [Some 31]) \<and> i \<le> n))",
     OF _ assms])
  fix loop :: "rcode \<Rightarrow> string \<Rightarrow> string \<Rightarrow> jsval \<Rightarrow> nat \<Rightarrow> session \<Rightarrow> session option"
    and rs ns ev d i s y
  assume 1: "\<And>rs ns ev d i s y. loop rs ns ev d i s = Some y \<Longrightarrow>
           \<not> (rs = restless \<and> ns = ''chat'' \<and> ev = ''message'' \<and>
            (\<exists>n. callbacks_of s ''chat'' ''message'' = Some (replicate n None @ [Some 31]) \<and> i \<le> n))"
    "(case callbacks_of s ns ev of None \<Rightarrow> Some s
      | Some eventCallbacks \<Rightarrow>
          if i < length eventCallbacks
          then case eventCallbacks ! i of
               None \<Rightarrow> loop rs ns ev d (Suc i) s
               | Some callback \<Rightarrow> loop rs ns ev d (Suc i) (rcall_handler rs ns ev callback d s)
          else Some s) = Some y"
  show "\<not> (rs = restless \<and> ns = ''chat'' \<and> ev = ''message'' \<and>
            (\<exists>n. callbacks_of s ''chat'' ''message'' = Some (replicate n None @ [Some 31]) \<and> i \<le> n))"
  proof (rule notI, elim conjE exE)
    fix n
    assume e: "rs = restless" "ns = ''chat''" "ev = ''message''"
      and c: "callbacks_of s ''chat'' ''message'' = Some (replicate n None @ [Some 31])"
      and i: "i \<le> n"
    show False
    proof (cases "i < n")
      case True
      then have "(replicate n None @ [Some (31 :: fn)]) ! i = None" by (simp add: nth_append)
      with 1(2) e c i have "loop restless ''chat'' ''message'' d (Suc i) s = Some y" by simp
      from 1(1) [OF this]
      have n: "\<not> (\<exists>m. callbacks_of s ''chat'' ''message'' = Some (replicate m None @ [Some 31]) \<and>
                     Suc i \<le> m)" by simp
      from c True have "callbacks_of s ''chat'' ''message'' = Some (replicate n None @ [Some 31]) \<and>
                     Suc i \<le> n" by simp
      then have "\<exists>m. callbacks_of s ''chat'' ''message'' = Some (replicate m None @ [Some 31]) \<and>
                     Suc i \<le> m" by (rule exI)
      with n show False by contradiction
    next
      case False
      with i have "i = n" by simp
      then have "(replicate n None @ [Some (31 :: fn)]) ! i = Some 31" by (simp add: nth_append)
      with 1(2) e c i have "loop restless ''chat'' ''message'' d (Suc i)
          (rcall_handler restless ''chat'' ''message'' 31 d s) = Some y" by simp
      from 1(1) [OF this]
      have n: "\<not> (\<exists>m. callbacks_of (rcall_handler restless ''chat'' ''message'' 31 d s)
                       ''chat'' ''message'' = Some (replicate m None @ [Some 31]) \<and>
                     Suc i \<le> m)" by simp
      from restless_step [OF c, of d] \<open>i = n\<close>
      have "callbacks_of (rcall_handler restless ''chat'' ''message'' 31 d s)
                       ''chat'' ''message'' = Some (replicate (Suc n) None @ [Some 31]) \<and>
                     Suc i \<le> Suc n" by (intro conjI) simp_all
      then have "\<exists>m. callbacks_of (rcall_handler restless ''chat'' ''message'' 31 d s)
                       ''chat'' ''message'' = Some (replicate m None @ [Some 31]) \<and>
                     Suc i \<le> m" by (rule exI)
      with n show False by contradiction
    qed
  qed
qed

lemma spinning_registered: "callbacks_of spinning ''chat'' ''message'' = Some [Some 31]"
  by (simp add: spinning_def eval_defs)

lemma dispatch_never_returns:
  "handleEvent_reg restless ''chat'' ''message'' Null spinning = None"
proof (cases "handleEvent_reg restless ''chat'' ''message'' Null spinning")
  case (Some y)
  from spinning_registered have "handleEvent_reg restless ''chat'' ''message'' Null spinning =
      handle_loop_reg restless ''chat'' ''message'' Null 0 spinning"
    by (auto simp: handleEvent_reg_def callbacks_of_def split: option.splits)
  with Some have "handle_loop_reg restless ''chat'' ''message'' Null 0 spinning = Some y" by simp
  from restless_never_returns [OF this]
  have "\<not> (\<exists>n. callbacks_of spinning ''chat'' ''message'' = Some (replicate n None @ [Some 31]) \<and> 0 \<le> n)"
    by simp
  moreover
  have "callbacks_of spinning ''chat'' ''message'' = Some (replicate 0 None @ [Some 31]) \<and> (0 :: nat) \<le> 0"
    using spinning_registered by simp
  then have "\<exists>n. callbacks_of spinning ''chat'' ''message'' = Some (replicate n None @ [Some 31]) \<and> 0 \<le> n"
    by (rule exI)
  ultimately show ?thesis by contradiction
qed simp

lemma writes_keep_other_objects:
  "metadata (run fs s1 (map (\<lambda>(k, v). WriteProp a k v) kvs)) = metadata s1 \<and>
   length (heap (run fs s1 (map (\<lambda>(k, v). WriteProp a k v) kvs))) = length (heap s1) \<and>
   (\<forall>b. b \<noteq> a \<longrightarrow>
      obj_at (heap (run fs s1 (map (\<lambda>(k, v). WriteProp a k v) kvs))) b = obj_at (heap s1) b)"
proof (induction kvs arbitrary: s1)
  case Nil
  then show ?case by (simp add: run_def)
next
  case (Cons kv kvs)
  obtain k v where kv: "kv = (k, v)" by (cases kv)
  have r: "run fs s1 (map (\<lambda>(k, v). WriteProp a k v) (kv # kvs)) =
      run fs (write_prop a k v s1) (map (\<lambda>(k, v). WriteProp a k v) kvs)"
    by (simp add: run_def kv)
  have w: "metadata (write_prop a k v s1) = metadata s1"
    "length (heap (write_prop a k v s1)) = length (heap s1)"
    "\<And>b. b \<noteq> a \<Longrightarrow> obj_at (heap (write_prop a k v s1)) b = obj_at (heap s1) b"
    by (simp_all add: write_prop_def obj_at_def)
  from Cons.IH [of "write_prop a k v s1"] w show ?case unfolding r by simp
qed

lemma console_run_body: "console (snd (run_body as s)) = console s"
  by (induction as s rule: run_body.induct) (simp_all add: unregister_def split: option.splits)

lemma unregisterPlugin_logs:
  assumes "map_get (plugins s) pid = Some p" "cleanup p = Some c" "AThrow \<in> set (fs c)"
  shows "console (unregisterPlugin fs pid s) = console s @ [CleanupError pid]"
proof -
  obtain threw s' where cl: "call fs c NoArg s = (threw, s')" by (cases "call fs c NoArg s")
  from cl run_body_throws [of "fs c" "s\<lparr>calls := calls s @ [(c, NoArg)]\<rparr>"] assms(3)
  have th: "threw" by (simp add: call_def)
  from cl console_run_body [of "fs c" "s\<lparr>calls := calls s @ [(c, NoArg)]\<rparr>"]
  have "console s' = console s" by (simp add: call_def)
  with assms cl th show ?thesis by (simp add: unregisterPlugin_def log_def)
qed

text \<open>What the serializer makes of a property that holds a reference.\<close>

lemma serialize_ref: "serialize h st (JRef a) = Inr w \<Longrightarrow> w \<noteq> Undefined"
  by (auto split: if_splits sum.splits)

lemma map_of_obj_set: "map_of (obj_set k v ps) k = Some v"
  by (induction ps) auto

lemma map_of_filter_first: "map_of qs k = Some w \<Longrightarrow> P (k, w) \<Longrightarrow> map_of (filter P qs) k = Some w"
  by (induction qs) auto

lemma collect_props:
  "collect (map (\<lambda>p. case f (snd p) of Inl e \<Rightarrow> Inl e | Inr w \<Rightarrow> Inr (fst p, w)) ps) = Inr qs \<Longrightarrow>
   map_of ps k = Some v \<Longrightarrow> \<exists>w. f v = Inr w \<and> map_of qs k = Some w"
  apply (induction ps arbitrary: qs)
   apply (auto split: sum.splits if_splits)
  done

lemma serialize_object:
  assumes "serialize h st (JObj ps) = Inr js" "map_of ps k = Some (JRef a)"
  shows "\<exists>qs m. js = JObj qs \<and> serialize h st (JRef a) = Inr m \<and> map_of qs k = Some m"
proof -
  from assms(1) obtain qs where
    c: "collect (map (\<lambda>p. case serialize h st (snd p) of Inl e \<Rightarrow> Inl e | Inr w \<Rightarrow> Inr (fst p, w)) ps) = Inr qs"
    and js: "js = JObj (filter (\<lambda>q. snd q \<noteq> Undefined) qs)"
    by (auto split: sum.splits)
  from collect_props [of "serialize h st", OF c assms(2)] obtain m where
    m: "serialize h st (JRef a) = Inr m" "map_of qs k = Some m" by blast
  from serialize_ref [OF m(1)] have "m \<noteq> Undefined" .
  with m(2) have "map_of (filter (\<lambda>q. snd q \<noteq> Undefined) qs) k = Some m"
    by (intro map_of_filter_first) simp_all
  with js m(1) show ?thesis by blast
qed

lemma stringify_frame_of:
  assumes "stringify (frame_of ns ev d s) = Inr js"
  shows "\<exists>dps m. js = JObj [(''namespace'', JStr ns), (''event'', JStr ev), (''data'', JObj dps)] \<and>
           serialize (heap s) [] (JRef (metadata s)) = Inr m \<and> map_of dps ''metadata'' = Some m"
proof -
  let ?D = "obj_set ''metadata'' (JRef (metadata s)) (assign [] (case d of None \<Rightarrow> [] | Some ps \<Rightarrow> ps))"
  from assms obtain w where
    w: "serialize (heap s) [] (JObj ?D) = Inr w"
    and js: "js = JObj (filter (\<lambda>q. snd q \<noteq> Undefined) [(''namespace'', JStr ns), (''event'', JStr ev), (''data'', w)])"
    unfolding stringify_def frame_of_def
    by (auto simp del: serialize.simps(7) simp add: serialize.simps(7) [of _ _ "[_, _, _]"] split: sum.splits)
  from serialize_object [OF w map_of_obj_set] obtain dps m where
    "w = JObj dps" "serialize (heap s) [] (JRef (metadata s)) = Inr m" "map_of dps ''metadata'' = Some m"
    by blast
  with js show ?thesis by simp
qed

section \<open>The claims\<close>

subsection \<open>C1: reconnection after an explicit disconnect\<close>

text \<open>
  C1, as stated, fails on a session that has no transport: \<open>disconnect()\<close> on a new
  client leaves \<open>autoReconnect\<close> true, so that after a later \<open>connect()\<close> the close event
  of the socket schedules timer 1, which fires and calls \<open>connect()\<close>, creating a second
  socket.
\<close>

theorem disconnect_without_transport_keeps_autoReconnect:
  "ws fresh = None \<and>
   autoReconnect (run idle fresh [Disconnect]) \<and>
   timers (run idle fresh [Disconnect, Connect, SockClose 0]) = [(1, 5000)] \<and>
   length (sockets (run idle fresh [Disconnect, Connect, SockClose 0])) = 1 \<and>
   length (sockets (run idle fresh [Disconnect, Connect, SockClose 0, TimerFires 1])) = 2 \<and>
   ws (run idle fresh [Disconnect, Connect, SockClose 0, TimerFires 1]) = Some 1"
  by (simp add: eval_defs)

text \<open>
  C1, amended. After a \<open>disconnect()\<close> made while a transport instance exists,
  \<open>autoReconnect\<close> is false and the timer recorded in \<open>reconnectTimer\<close> is no longer
  pending; under every later history of operations and events \<open>autoReconnect\<close> stays
  false and no timer is scheduled: every timer pending later was pending when
  \<open>disconnect()\<close> returned. Made while no transport instance exists, \<open>disconnect()\<close>
  cancels the recorded timer and leaves \<open>autoReconnect\<close> as it was.
\<close>

theorem disconnect_with_transport_ends_reconnection:
  "(ws s \<noteq> None \<longrightarrow>
      \<not> autoReconnect (disconnect fs s) \<and>
      (\<forall>t. reconnectTimer s = Some t \<longrightarrow> t \<notin> fst ` set (timers (disconnect fs s))) \<and>
      \<not> autoReconnect (run fs (disconnect fs s) ops) \<and>
      set (timers (run fs (disconnect fs s) ops)) \<subseteq> set (timers (disconnect fs s))) \<and>
   (ws s = None \<longrightarrow>
      autoReconnect (disconnect fs s) = autoReconnect s \<and>
      (\<forall>t. reconnectTimer s = Some t \<longrightarrow> t \<notin> fst ` set (timers (disconnect fs s))))"
proof (intro conjI impI allI)
  assume w: "ws s \<noteq> None"
  from disconnect_policy(2) [OF w] show off: "\<not> autoReconnect (disconnect fs s)" .
  from run_keeps_reconnect_off [OF off]
  show "\<not> autoReconnect (run fs (disconnect fs s) ops)"
    "set (timers (run fs (disconnect fs s) ops)) \<subseteq> set (timers (disconnect fs s))"
    by simp_all
next
  fix t assume "reconnectTimer s = Some t"
  from disconnect_policy(5) [OF this] show "t \<notin> fst ` set (timers (disconnect fs s))" .
next
  fix t assume "reconnectTimer s = Some t"
  from disconnect_policy(5) [OF this] show "t \<notin> fst ` set (timers (disconnect fs s))" .
next
  assume "ws s = None"
  then show "autoReconnect (disconnect fs s) = autoReconnect s"
    by (simp add: disconnect_def Let_def clearTimeout_def split: option.splits)
qed

theorem disconnect_with_transport_ends_reconnection_witness:
  "ws (run idle fresh [Connect, SockClose 0, TimerFires 1]) = Some 1 \<and>
   reconnectTimer (run idle fresh [Connect, SockClose 0, TimerFires 1, SockClose 1]) = Some 2 \<and>
   timers (run idle fresh [Connect, SockClose 0, TimerFires 1, SockClose 1]) = [(2, 5000)] \<and>
   \<not> autoReconnect (disconnect idle (run idle fresh [Connect, SockClose 0, TimerFires 1, SockClose 1])) \<and>
   \<not> autoReconnect (run idle (disconnect idle (run idle fresh [Connect, SockClose 0, TimerFires 1, SockClose 1]))
        [Connect, SockClose 2, TimerFires 2, TimerFires 3]) \<and>
   timers (run idle (disconnect idle (run idle fresh [Connect, SockClose 0, TimerFires 1, SockClose 1]))
        [Connect, SockClose 2, TimerFires 2, TimerFires 3]) = [] \<and>
   ws fresh = None \<and> autoReconnect (disconnect idle fresh)"
proof -
  let ?s = "run idle fresh [Connect, SockClose 0, TimerFires 1, SockClose 1]"
  let ?ops = "[Connect, SockClose 2, TimerFires 2, TimerFires 3]"
  have a: "ws (run idle fresh [Connect, SockClose 0, TimerFires 1]) = Some 1" by (simp add: eval_defs)
  have b: "reconnectTimer ?s = Some 2" by (simp add: eval_defs)
  have c: "timers ?s = [(2, 5000)]" by (simp add: eval_defs)
  have w: "ws ?s \<noteq> None" by (simp add: eval_defs)
  have d: "timers (disconnect idle ?s) = []" by (simp add: eval_defs)
  have f: "ws fresh = None" "autoReconnect fresh" by (simp_all add: eval_defs)
  from disconnect_with_transport_ends_reconnection [of ?s idle ?ops] w d
  have "\<not> autoReconnect (disconnect idle ?s) \<and> \<not> autoReconnect (run idle (disconnect idle ?s) ?ops) \<and>
      timers (run idle (disconnect idle ?s) ?ops) = []"
    by simp
  moreover from disconnect_with_transport_ends_reconnection [of fresh idle "[]"] f
  have "autoReconnect (disconnect idle fresh)" by simp
  ultimately show ?thesis using a b c f(1) by simp
qed

subsection \<open>C2: the number of pending reconnect timers\<close>

text \<open>
  C2. At most one reconnect timer should be pending. On the history \<open>connect()\<close>, close
  of socket 0, \<open>connect()\<close>, close of socket 1, the second close event schedules timer 2
  while timer 1 is still pending: neither the manual \<open>connect()\<close> nor the close reaction
  cancels it. \<open>disconnect()\<close> then cancels timer 2 only, and timer 1 fires afterwards
  and opens a third socket.
\<close>

theorem second_close_leaves_two_pending_timers:
  "timers (run idle fresh [Connect, SockClose 0]) = [(1, 5000)] \<and>
   timers (run idle fresh [Connect, SockClose 0, Connect]) = [(1, 5000)] \<and>
   timers (run idle fresh [Connect, SockClose 0, Connect, SockClose 1]) = [(1, 5000), (2, 5000)] \<and>
   reconnectTimer (run idle fresh [Connect, SockClose 0, Connect, SockClose 1]) = Some 2 \<and>
   timers (run idle fresh [Connect, SockClose 0, Connect, SockClose 1, Disconnect]) = [(1, 5000)] \<and>
   length (sockets (run idle fresh [Connect, SockClose 0, Connect, SockClose 1, Disconnect])) = 2 \<and>
   length (sockets (run idle fresh
     [Connect, SockClose 0, Connect, SockClose 1, Disconnect, TimerFires 1])) = 3"
  by (simp add: eval_defs)

subsection \<open>C3: disconnect when there is no transport\<close>

text \<open>
  C3, as stated, fails: on a client that never connected, \<open>disconnect()\<close> leaves the
  registered plugin registered and does not call its cleanup (callback 2); the only call
  ever made is the initializer's (callback 1).
\<close>

theorem disconnect_without_transport_keeps_plugins:
  "ws (run idle fresh [RegisterPlugin plugin_p]) = None \<and>
   getPlugins (run idle fresh [RegisterPlugin plugin_p]) = [plugin_p] \<and>
   getPlugins (run idle fresh [RegisterPlugin plugin_p, Disconnect]) = [plugin_p] \<and>
   calls (run idle fresh [RegisterPlugin plugin_p]) = [(1, Api)] \<and>
   calls (run idle fresh [RegisterPlugin plugin_p, Disconnect]) = [(1, Api)]"
  by (simp add: eval_defs)

text \<open>
  C3, amended. \<open>disconnect()\<close> when no transport instance is present is safe and cancels
  the pending timer recorded in \<open>reconnectTimer\<close>, but tears no plugin down: the plugin
  map and the trace of calls are unchanged. The teardown is made when a transport
  instance is present: then, besides the cancellation, the cleanup of every registered
  plugin is called once, in registration order, and no plugin remains registered.
  (The keys of a \<open>Map\<close> are distinct.)
\<close>

theorem disconnect_teardown_needs_transport:
  "(ws s = None \<longrightarrow>
      reconnectTimer (disconnect fs s) = None \<and>
      (\<forall>t. reconnectTimer s = Some t \<longrightarrow> t \<notin> fst ` set (timers (disconnect fs s))) \<and>
      plugins (disconnect fs s) = plugins s \<and>
      calls (disconnect fs s) = calls s) \<and>
   (ws s \<noteq> None \<and> distinct (map fst (live (plugins s))) \<longrightarrow>
      reconnectTimer (disconnect fs s) = None \<and>
      (\<forall>t. reconnectTimer s = Some t \<longrightarrow> t \<notin> fst ` set (timers (disconnect fs s))) \<and>
      getPlugins (disconnect fs s) = [] \<and>
      calls (disconnect fs s) = calls s @ cleanup_calls (live (plugins s)))"
proof -
  let ?s1 = "case reconnectTimer s of None \<Rightarrow> s
     | Some t \<Rightarrow> (clearTimeout t s)\<lparr>reconnectTimer := None\<rparr>"
  have s1: "ws ?s1 = ws s" "plugins ?s1 = plugins s" "calls ?s1 = calls s"
    "reconnectTimer ?s1 = None"
    by (simp_all add: clearTimeout_def split: option.splits)
  have tm: "\<forall>t. reconnectTimer s = Some t \<longrightarrow> t \<notin> fst ` set (timers (disconnect fs s))"
    using disconnect_policy(5) [of s _ fs] by blast
  have a: "reconnectTimer (disconnect fs s) = None \<and> plugins (disconnect fs s) = plugins s \<and>
      calls (disconnect fs s) = calls s"
    if w: "ws s = None"
  proof -
    from w s1(1) have "disconnect fs s = ?s1" by (simp add: disconnect_def Let_def)
    with s1 show ?thesis by simp
  qed
  from a tm disconnect_with_transport_teardown [of s fs] show ?thesis by blast
qed

theorem disconnect_teardown_needs_transport_witness:
  "ws (run faulty fresh [RegisterPlugin plugin_p]) = None \<and>
   getPlugins (disconnect faulty (run faulty fresh [RegisterPlugin plugin_p])) = [plugin_p] \<and>
   calls (disconnect faulty (run faulty fresh [RegisterPlugin plugin_p])) = [(1, Api)] \<and>
   ws (run faulty fresh [RegisterPlugin plugin_q, RegisterPlugin plugin_p, Connect]) = Some 0 \<and>
   getPlugins (run faulty fresh [RegisterPlugin plugin_q, RegisterPlugin plugin_p, Connect])
     = [plugin_q, plugin_p] \<and>
   getPlugins (disconnect faulty
     (run faulty fresh [RegisterPlugin plugin_q, RegisterPlugin plugin_p, Connect])) = [] \<and>
   calls (disconnect faulty
     (run faulty fresh [RegisterPlugin plugin_q, RegisterPlugin plugin_p, Connect]))
     = [(1, Api), (4, NoArg), (2, NoArg)]"
proof -
  let ?a = "run faulty fresh [RegisterPlugin plugin_p]"
  let ?b = "run faulty fresh [RegisterPlugin plugin_q, RegisterPlugin plugin_p, Connect]"
  have a: "ws ?a = None" "plugins ?a = [Some (''p'', plugin_p)]" "calls ?a = [(1, Api)]"
    by (simp_all add: eval_defs)
  have b: "ws ?b = Some 0" "plugins ?b = [Some (''q'', plugin_q), Some (''p'', plugin_p)]"
    "calls ?b = [(1, Api)]"
    by (simp_all add: eval_defs)
  from disconnect_teardown_needs_transport [of ?a faulty] a
  have 1: "plugins (disconnect faulty ?a) = [Some (''p'', plugin_p)]"
    "calls (disconnect faulty ?a) = [(1, Api)]" by simp_all
  from disconnect_teardown_needs_transport [of ?b faulty] b
  have 2: "getPlugins (disconnect faulty ?b) = []"
    "calls (disconnect faulty ?b) = [(1, Api)] @ cleanup_calls [(''q'', plugin_q), (''p'', plugin_p)]"
    by simp_all
  show ?thesis using a(1) b(1) b(2) 1 2
    by (simp add: getPlugins_def cleanup_calls_def plugin_p_def plugin_q_def)
qed

subsection \<open>C4: the ready callback\<close>

text \<open>
  C4, as stated, fails: a callback stored by \<open>ready\<close> is called on the first
  \<open>system:init\<close> frame and again on the \<open>system:init\<close> frame of the next connection,
  after a connection loss with automatic reconnection as well as after an explicit
  \<open>disconnect()\<close> and \<open>connect()\<close>, without any new call of \<open>ready\<close>.
\<close>

theorem ready_callback_called_again_after_reconnect:
  "calls (run idle fresh [Ready 7, Connect, SockOpen 0]) = [] \<and>
   calls (run idle fresh
     [Ready 7, Connect, SockOpen 0, SockMessage 0 (Some (init_frame ''a'')),
      SockClose 0, TimerFires 1, SockOpen 1, SockMessage 1 (Some (init_frame ''b''))])
     = [(7, Data (JStr ''a'')), (7, Data (JStr ''b''))] \<and>
   clientId (run idle fresh
     [Ready 7, Connect, SockOpen 0, SockMessage 0 (Some (init_frame ''a'')), Disconnect]) = Null \<and>
   calls (run idle fresh
     [Ready 7, Connect, SockOpen 0, SockMessage 0 (Some (init_frame ''a'')),
      Disconnect, SockClose 0, Connect, SockOpen 1, SockMessage 1 (Some (init_frame ''b''))])
     = [(7, Data (JStr ''a'')), (7, Data (JStr ''b''))]"
  by (simp add: eval_defs)

text \<open>
  C4, amended. \<open>ready(callback)\<close> called while the client id is unknown stores the
  callback without calling it. The stored callback stays stored under every history that
  contains no further call of \<open>ready\<close> (disconnects, closes and reconnections included),
  and every \<open>system:init\<close> frame processed while it is stored calls it with the client
  id of that frame and leaves it stored.
\<close>

theorem stored_ready_callback_runs_on_every_init:
  "(\<not> truthy (clientId s) \<longrightarrow> ready fs f s = (None, s\<lparr>onReady := Some f\<rparr>)) \<and>
   (onReady s = Some f \<and> (\<forall>op \<in> set ops. \<forall>g. op \<noteq> Ready g) \<and>
    is_init_frame (heap (run fs s ops)) m d cid \<longrightarrow>
      onReady (run fs s ops) = Some f \<and>
      (\<exists>rest. calls (onmessage fs (Some m) (run fs s ops)) =
                calls (run fs s ops) @ (f, Data cid) # rest) \<and>
      onReady (onmessage fs (Some m) (run fs s ops)) = Some f)"
proof (intro conjI impI)
  assume "\<not> truthy (clientId s)"
  then show "ready fs f s = (None, s\<lparr>onReady := Some f\<rparr>)" by (simp add: ready_def)
next
  assume a: "onReady s = Some f \<and> (\<forall>op \<in> set ops. \<forall>g. op \<noteq> Ready g) \<and>
    is_init_frame (heap (run fs s ops)) m d cid"
  then have k: "onReady (run fs s ops) = Some f"
    using run_keeps_onReady [of ops fs s] by simp
  then show "onReady (run fs s ops) = Some f" .
  from a have i: "get_prop (heap (run fs s ops)) m ''namespace'' = Inr (JStr ''system'')"
    "get_prop (heap (run fs s ops)) m ''event'' = Inr (JStr ''init'')"
    "get_prop (heap (run fs s ops)) m ''data'' = Inr d"
    "get_prop (heap (run fs s ops)) d ''clientId'' = Inr cid"
    by (simp_all add: is_init_frame_def)
  from init_frame_calls_ready [OF k i]
  show "\<exists>rest. calls (onmessage fs (Some m) (run fs s ops)) =
                calls (run fs s ops) @ (f, Data cid) # rest" .
  from policy_frameD(5) [OF policy_frame_onmessage [of "run fs s ops" fs "Some m"]] k
  show "onReady (onmessage fs (Some m) (run fs s ops)) = Some f" by simp
qed

theorem stored_ready_callback_runs_on_every_init_witness:
  "\<not> truthy (clientId fresh) \<and>
   onReady (snd (ready idle 7 fresh)) = Some 7 \<and>
   is_init_frame (heap (run idle (snd (ready idle 7 fresh))
      [Connect, SockOpen 0, SockMessage 0 (Some (init_frame ''a'')), Disconnect, SockClose 0,
       Connect, SockOpen 1])) (init_frame ''b'') (JObj [(''clientId'', JStr ''b'')]) (JStr ''b'') \<and>
   calls (run idle (snd (ready idle 7 fresh))
      [Connect, SockOpen 0, SockMessage 0 (Some (init_frame ''a'')), Disconnect, SockClose 0,
       Connect, SockOpen 1]) = [(7, Data (JStr ''a''))] \<and>
   onReady (run idle (snd (ready idle 7 fresh))
      [Connect, SockOpen 0, SockMessage 0 (Some (init_frame ''a'')), Disconnect, SockClose 0,
       Connect, SockOpen 1]) = Some 7 \<and>
   (\<exists>rest. calls (onmessage idle (Some (init_frame ''b'')) (run idle (snd (ready idle 7 fresh))
      [Connect, SockOpen 0, SockMessage 0 (Some (init_frame ''a'')), Disconnect, SockClose 0,
       Connect, SockOpen 1])) = [(7, Data (JStr ''a'')), (7, Data (JStr ''b''))] @ rest)"
proof -
  let ?ops = "[Connect, SockOpen 0, SockMessage 0 (Some (init_frame ''a'')), Disconnect,
       SockClose 0, Connect, SockOpen 1]"
  have u: "\<not> truthy (clientId fresh)" by (simp add: eval_defs)
  from stored_ready_callback_runs_on_every_init [of fresh idle 7] u
  have r: "ready idle 7 fresh = (None, fresh\<lparr>onReady := Some 7\<rparr>)" by blast
  let ?s = "snd (ready idle 7 fresh)"
  have o: "onReady ?s = Some 7" by (simp add: r)
  have n: "\<forall>op \<in> set ?ops. \<forall>g. op \<noteq> Ready g" by simp
  have i: "is_init_frame (heap (run idle ?s ?ops)) (init_frame ''b'')
      (JObj [(''clientId'', JStr ''b'')]) (JStr ''b'')"
    by (simp add: is_init_frame_def init_frame_def obj_get_def)
  have c: "calls (run idle ?s ?ops) = [(7, Data (JStr ''a''))]"
    by (simp add: r) (simp add: eval_defs)
  from stored_ready_callback_runs_on_every_init [of ?s idle 7 ?ops "init_frame ''b''"
      "JObj [(''clientId'', JStr ''b'')]" "JStr ''b''"] o n i
  have t: "onReady (run idle ?s ?ops) = Some 7"
    "\<exists>rest. calls (onmessage idle (Some (init_frame ''b'')) (run idle ?s ?ops)) =
                calls (run idle ?s ?ops) @ (7, Data (JStr ''b'')) # rest"
    by blast+
  show ?thesis using u o i c t by simp
qed

subsection \<open>C5: callbacks that throw\<close>

text \<open>
  C5, as stated, fails for plugin initializers: \<open>registerPlugin\<close> calls
  \<open>plugin.initialize(api)\<close> outside any \<open>try\<close>, so the exception of initializer 4
  reaches the caller of \<open>registerPlugin\<close>, and the plugin is registered nevertheless.
\<close>

theorem initializer_failure_propagates:
  "fst (registerPlugin faulty plugin_r fresh) = Some (Raised 4) \<and>
   getPlugins (snd (registerPlugin faulty plugin_r fresh)) = [plugin_r]"
  by (simp add: eval_defs)

text \<open>
  C5, amended. An event handler that throws during dispatch and a plugin cleanup that
  throws are caught where they are called and logged: dispatch and teardown return,
  and the connection state machine (transport, sockets, connecting flag, reconnect
  policy and timers, client id) is as before. With handlers that only return or throw,
  dispatch calls every registered handler, in order, and logs one line per handler that
  threw. \<open>unregisterPlugin\<close> calls the cleanup and removes the plugin whether or not the
  cleanup throws, and \<open>disconnect()\<close> with a transport calls every plugin's cleanup and
  leaves no plugin registered. A plugin initializer that throws is not caught: the
  exception reaches the caller of \<open>registerPlugin\<close> and the plugin stays registered.
\<close>

theorem handler_and_cleanup_failures_are_isolated:
  "callback_frame s (handleEvent fs ns ev d s) \<and>
   ((\<forall>f. set (fs f) \<subseteq> {AThrow}) \<and> callbacks_of s ns ev = Some cbs \<longrightarrow>
      calls (handleEvent fs ns ev d s) = calls s @ map (\<lambda>f. (f, Data d)) (live cbs) \<and>
      console (handleEvent fs ns ev d s) =
        console s @ map (\<lambda>f. HandlerError ns ev) (filter (\<lambda>f. fs f \<noteq> []) (live cbs))) \<and>
   callback_frame s (unregisterPlugin fs pid s) \<and>
   (map_get (plugins s) pid = Some p \<longrightarrow>
      plugins (unregisterPlugin fs pid s) = map_delete pid (plugins s) \<and>
      calls (unregisterPlugin fs pid s) = calls s @ cleanup_calls [(pid, p)] \<and>
      (\<forall>c. cleanup p = Some c \<and> AThrow \<in> set (fs c) \<longrightarrow>
         console (unregisterPlugin fs pid s) = console s @ [CleanupError pid])) \<and>
   (ws s \<noteq> None \<and> distinct (map fst (live (plugins s))) \<longrightarrow>
      calls (disconnect fs s) = calls s @ cleanup_calls (live (plugins s)) \<and>
      getPlugins (disconnect fs s) = []) \<and>
   (plugin_id q = Some qid \<and> qid \<noteq> [] \<and> \<not> map_has (plugins s) qid \<and>
    initialize q = Some g \<and> AThrow \<in> set (fs g) \<longrightarrow>
      fst (registerPlugin fs q s) = Some (Raised g) \<and>
      map_get (plugins (snd (registerPlugin fs q s))) qid = Some q)"
  using callback_frame_handleEvent [of s fs ns ev d]
    handleEvent_throw_only [of fs s ns ev cbs d]
    callback_frame_unregisterPlugin [of s fs pid]
    unregisterPlugin_effect [of s pid p fs]
    unregisterPlugin_logs [of s pid p _ fs]
    disconnect_with_transport_teardown(2,3) [of s fs]
    registerPlugin_initializer_throws [of q qid s g fs]
  by blast

theorem handler_and_cleanup_failures_are_isolated_witness:
  "(\<forall>f. set (faulty f) \<subseteq> {AThrow}) \<and>
   callbacks_of chatting ''chat'' ''message'' = Some [Some 3, Some 4, Some 5] \<and>
   calls (handleEvent faulty ''chat'' ''message'' (JStr ''hi'') chatting) =
     [(1, Api), (3, Data (JStr ''hi'')), (4, Data (JStr ''hi'')), (5, Data (JStr ''hi''))] \<and>
   console (handleEvent faulty ''chat'' ''message'' (JStr ''hi'') chatting) =
     [HandlerError ''chat'' ''message''] \<and>
   ws (handleEvent faulty ''chat'' ''message'' (JStr ''hi'') chatting) = Some 0 \<and>
   map readyState (sockets (handleEvent faulty ''chat'' ''message'' (JStr ''hi'') chatting)) = [OPEN] \<and>
   map_get (plugins chatting) ''q'' = Some plugin_q \<and>
   getPlugins (unregisterPlugin faulty ''q'' chatting) = [plugin_p] \<and>
   calls (unregisterPlugin faulty ''q'' chatting) = [(1, Api), (4, NoArg)] \<and>
   console (unregisterPlugin faulty ''q'' chatting) = [CleanupError ''q''] \<and>
   ws (unregisterPlugin faulty ''q'' chatting) = Some 0 \<and>
   calls (disconnect faulty chatting) = [(1, Api), (4, NoArg), (2, NoArg)] \<and>
   getPlugins (disconnect faulty chatting) = [] \<and>
   fst (registerPlugin faulty plugin_r chatting) = Some (Raised 4) \<and>
   map_get (plugins (snd (registerPlugin faulty plugin_r chatting))) ''r'' = Some plugin_r"
proof -
  have f: "\<forall>f. set (faulty f) \<subseteq> {AThrow}" by (auto simp: faulty_def)
  have c: "callbacks_of chatting ''chat'' ''message'' = Some [Some 3, Some 4, Some 5]"
    by (simp add: chatting_def eval_defs)
  have s: "calls chatting = [(1, Api)]" "console chatting = []" "ws chatting = Some 0"
    "map readyState (sockets chatting) = [OPEN]"
    "plugins chatting = [Some (''q'', plugin_q), Some (''p'', plugin_p)]"
    by (simp_all add: chatting_def eval_defs)
  have g: "map_get (plugins chatting) ''q'' = Some plugin_q"
    by (simp add: s map_get_def)
  have w: "ws chatting \<noteq> None" "distinct (map fst (live (plugins chatting)))"
    by (simp_all add: s)
  have r: "plugin_id plugin_r = Some ''r''" "''r'' \<noteq> []" "\<not> map_has (plugins chatting) ''r''"
    "initialize plugin_r = Some 4" "AThrow \<in> set (faulty 4)"
    by (simp_all add: plugin_r_def s map_has_def faulty_def)
  note t = handler_and_cleanup_failures_are_isolated [of chatting faulty "''chat''" "''message''"
      "JStr ''hi''" "[Some 3, Some 4, Some 5]" "''q''" plugin_q plugin_r "''r''" 4]
  from t have fr: "callback_frame chatting (handleEvent faulty ''chat'' ''message'' (JStr ''hi'') chatting)"
    "callback_frame chatting (unregisterPlugin faulty ''q'' chatting)"
    by blast+
  from t f c have h: "calls (handleEvent faulty ''chat'' ''message'' (JStr ''hi'') chatting) =
      calls chatting @ map (\<lambda>f. (f, Data (JStr ''hi''))) (live [Some 3, Some 4, Some 5])"
    "console (handleEvent faulty ''chat'' ''message'' (JStr ''hi'') chatting) =
      console chatting @ map (\<lambda>f. HandlerError ''chat'' ''message'')
        (filter (\<lambda>f. faulty f \<noteq> []) (live [Some 3, Some 4, Some 5]))"
    by blast+
  from t g have u: "plugins (unregisterPlugin faulty ''q'' chatting) = map_delete ''q'' (plugins chatting)"
    "calls (unregisterPlugin faulty ''q'' chatting) = calls chatting @ cleanup_calls [(''q'', plugin_q)]"
    by blast+
  have qc: "cleanup plugin_q = Some 4" by (simp add: plugin_q_def)
  from t g qc r(5) have u3: "console (unregisterPlugin faulty ''q'' chatting) =
      console chatting @ [CleanupError ''q'']"
    by blast
  from t w have d: "calls (disconnect faulty chatting) =
      calls chatting @ cleanup_calls (live (plugins chatting))"
    "getPlugins (disconnect faulty chatting) = []"
    by blast+
  from t r have i: "fst (registerPlugin faulty plugin_r chatting) = Some (Raised 4)"
    "map_get (plugins (snd (registerPlugin faulty plugin_r chatting))) ''r'' = Some plugin_r"
    by blast+
  have h1: "calls (handleEvent faulty ''chat'' ''message'' (JStr ''hi'') chatting) =
     [(1, Api), (3, Data (JStr ''hi'')), (4, Data (JStr ''hi'')), (5, Data (JStr ''hi''))]"
    by (subst h(1)) (simp add: s)
  have h2: "console (handleEvent faulty ''chat'' ''message'' (JStr ''hi'') chatting) =
     [HandlerError ''chat'' ''message'']"
    by (subst h(2)) (simp add: s faulty_def)
  have u1: "getPlugins (unregisterPlugin faulty ''q'' chatting) = [plugin_p]"
    unfolding getPlugins_def by (subst u(1)) (simp add: s map_delete_def)
  have u2: "calls (unregisterPlugin faulty ''q'' chatting) = [(1, Api), (4, NoArg)]"
    by (subst u(2)) (simp add: s cleanup_calls_def plugin_q_def)
  have d1: "calls (disconnect faulty chatting) = [(1, Api), (4, NoArg), (2, NoArg)]"
    by (subst d(1)) (simp add: s cleanup_calls_def plugin_q_def plugin_p_def)
  show ?thesis
    using f c g i d(2) h1 h2 u1 u2 u3 d1 callback_frameD(4,10) [OF fr(1)]
      callback_frameD(4) [OF fr(2)]
    by (simp add: s)
qed

subsection \<open>C6: dispatch and the registered callbacks\<close>

text \<open>
  C6, as claimed: dispatching a frame calls exactly the callbacks registered for the pair,
  each exactly once, and a callback that unregisters handlers during the dispatch does
  not make it skip the remaining callbacks. This fails. In the session \<open>heard\<close>
  the callbacks 11, 12, 13 and 14 are registered; 12 unregisters 13 while it runs, and the
  dispatch calls 11, 12 and 14 only: the registered callback 13 is skipped. In the session
  \<open>paired\<close> the callbacks 21 and 22 are registered; 22 unregisters 21 and registers it
  again, and the dispatch calls 21, 22 and then 21 a second time. In the session
  \<open>spinning\<close>, whose one callback unregisters and registers itself again, the dispatch
  does not return.
\<close>

theorem dispatch_skips_unregistered_and_revisits_reregistered_callback:
  "registered heard ''chat'' ''message'' = [11, 12, 13, 14] \<and>
   calls heard = [] \<and>
   map_option calls (handleEvent_reg careful ''chat'' ''message'' Null heard) =
     Some [(11, Data Null), (12, Data Null), (14, Data Null)] \<and>
   registered paired ''chat'' ''message'' = [21, 22] \<and>
   calls paired = [] \<and>
   map_option calls (handleEvent_reg rejoining ''chat'' ''message'' Null paired) =
     Some [(21, Data Null), (22, Data Null), (21, Data Null)] \<and>
   registered spinning ''chat'' ''message'' = [31] \<and>
   handleEvent_reg restless ''chat'' ''message'' Null spinning = None"
proof -
  have "registered heard ''chat'' ''message'' = [11, 12, 13, 14]" "calls heard = []"
    by (simp_all add: heard_def eval_defs reg_defs)
  moreover have "map_option calls (handleEvent_reg careful ''chat'' ''message'' Null heard) =
     Some [(11, Data Null), (12, Data Null), (14, Data Null)]"
    by (simp add: heard_def careful_def eval_defs reg_defs)
  moreover have "registered paired ''chat'' ''message'' = [21, 22]" "calls paired = []"
    by (simp_all add: paired_def eval_defs reg_defs)
  moreover have "map_option calls (handleEvent_reg rejoining ''chat'' ''message'' Null paired) =
     Some [(21, Data Null), (22, Data Null), (21, Data Null)]"
    by (simp add: paired_def rejoining_def eval_defs reg_defs)
  moreover have "registered spinning ''chat'' ''message'' = [31]"
    by (simp add: registered_def spinning_registered)
  moreover note dispatch_never_returns
  ultimately show ?thesis by simp
qed

text \<open>
  C6, amended. The set registered for a pair is empty in a new client; \<open>registerEvent\<close>
  appends the callback to it unless it is already there, \<open>unregister\<close> removes it, and both
  leave the sets of the other pairs alone. In every session reached from the constructor
  the set holds no callback twice. When no callback registered for the pair registers a
  handler for that same pair while it runs, dispatching a frame for the pair returns,
  having called, in registration order and with the data of the frame, the registered
  callbacks that no callback called earlier in this dispatch had unregistered from the
  pair, and no others; each failure of a callback has been logged and the callbacks after
  it have been called all the same; afterwards exactly what the called callbacks
  unregistered is gone from the set. So no callback is called twice, only registered
  callbacks are called, a registered callback that no other registered callback
  unregisters is called, and when no registered callback unregisters from the pair the
  callbacks called are exactly the registered ones.
\<close>

theorem dispatch_calls_registered_callbacks_in_registration_order:
  assumes "s = run fs (LibrandaClient win opts) ops"
    and "\<forall>f \<in> set (registered s ns ev). \<not> registers_to ns ev (rs f)"
  shows "registered (LibrandaClient win opts) ns ev = [] \<and>
    registered (registerEvent n e cb s) ns ev =
      (if n = ns \<and> e = ev
       then (if cb \<in> set (registered s ns ev) then registered s ns ev
             else registered s ns ev @ [cb])
       else registered s ns ev) \<and>
    registered (unregister n e cb s) ns ev =
      (if n = ns \<and> e = ev then filter (\<lambda>g. g \<noteq> cb) (registered s ns ev)
       else registered s ns ev) \<and>
    distinct (registered s ns ev) \<and>
    (\<exists>s'. handleEvent_reg rs ns ev d s = Some s' \<and>
       calls s' = calls s @ map (\<lambda>f. (f, Data d)) (dispatch_order rs ns ev (registered s ns ev)) \<and>
       console s' = console s @ map (\<lambda>f. HandlerError ns ev)
                      (filter (\<lambda>f. throws (rs f)) (dispatch_order rs ns ev (registered s ns ev))) \<and>
       registered s' ns ev =
         filter (\<lambda>g. g \<notin> (\<Union>f \<in> set (dispatch_order rs ns ev (registered s ns ev)).
                               set (removed ns ev (rs f))))
           (registered s ns ev)) \<and>
    distinct (dispatch_order rs ns ev (registered s ns ev)) \<and>
    set (dispatch_order rs ns ev (registered s ns ev)) \<subseteq> set (registered s ns ev) \<and>
    (\<forall>g \<in> set (registered s ns ev).
       (\<forall>f \<in> set (registered s ns ev). f \<noteq> g \<longrightarrow> g \<notin> set (removed ns ev (rs f))) \<longrightarrow>
       g \<in> set (dispatch_order rs ns ev (registered s ns ev))) \<and>
    ((\<forall>f \<in> set (registered s ns ev). removed ns ev (rs f) = []) \<longrightarrow>
       dispatch_order rs ns ev (registered s ns ev) = registered s ns ev)"
proof -
  from assms(1) session_ok_run [OF session_ok_new] have ok: "session_ok s" by simp
  then have di: "distinct (registered s ns ev)" by (rule registered_distinct)
  have reach: "\<forall>g \<in> set (registered s ns ev).
       (\<forall>f \<in> set (registered s ns ev). f \<noteq> g \<longrightarrow> g \<notin> set (removed ns ev (rs f))) \<longrightarrow>
       g \<in> set (dispatch_order rs ns ev (registered s ns ev))"
    using dispatch_order_reaches [of _ "registered s ns ev" ns ev rs] by blast
  have every: "(\<forall>f \<in> set (registered s ns ev). removed ns ev (rs f) = []) \<longrightarrow>
       dispatch_order rs ns ev (registered s ns ev) = registered s ns ev"
    using dispatch_order_all [of "registered s ns ev" ns ev rs] by blast
  show ?thesis
    using registered_new [of win opts ns ev] registered_registerEvent [of n e cb s ns ev]
      registered_unregister [of n e cb s ns ev] di
      handleEvent_reg_order [OF assms(2), of d]
      dispatch_order_distinct [OF di, of rs ns ev]
      dispatch_order_subset [of rs ns ev "registered s ns ev"] reach every
    by (intro conjI) assumption+
qed

theorem dispatch_calls_registered_callbacks_in_registration_order_witness:
  "heard = run idle (LibrandaClient None no_options)
     [RegisterEvent ''chat'' ''message'' 11, RegisterEvent ''chat'' ''message'' 10,
      RegisterEvent ''chat'' ''message'' 12, RegisterEvent ''chat'' ''message'' 13,
      Unregister ''chat'' ''message'' 10, RegisterEvent ''chat'' ''message'' 14,
      RegisterEvent ''chat'' ''message'' 11] \<and>
   registered heard ''chat'' ''message'' = [11, 12, 13, 14] \<and>
   \<not> registers_to ''chat'' ''message'' (careful 11) \<and>
   \<not> registers_to ''chat'' ''message'' (careful 12) \<and>
   \<not> registers_to ''chat'' ''message'' (careful 13) \<and>
   \<not> registers_to ''chat'' ''message'' (careful 14) \<and>
   registered (registerEvent ''chat'' ''message'' 12 heard) ''chat'' ''message'' = [11, 12, 13, 14] \<and>
   registered (registerEvent ''chat'' ''message'' 15 heard) ''chat'' ''message'' =
     [11, 12, 13, 14, 15] \<and>
   registered (unregister ''chat'' ''message'' 12 heard) ''chat'' ''message'' = [11, 13, 14] \<and>
   map_option calls (handleEvent_reg careful ''chat'' ''message'' Null heard) =
     Some [(11, Data Null), (12, Data Null), (14, Data Null)] \<and>
   map_option console (handleEvent_reg careful ''chat'' ''message'' Null heard) =
     Some [HandlerError ''chat'' ''message''] \<and>
   registered (the (handleEvent_reg careful ''chat'' ''message'' Null heard)) ''chat'' ''message'' =
     [11, 12] \<and>
   14 \<in> set (dispatch_order careful ''chat'' ''message'' [11, 12, 13, 14]) \<and>
   removed ''chat'' ''message'' (quiet 11) = [] \<and>
   removed ''chat'' ''message'' (quiet 12) = [] \<and>
   removed ''chat'' ''message'' (quiet 13) = [] \<and>
   removed ''chat'' ''message'' (quiet 14) = [] \<and>
   map_option calls (handleEvent_reg quiet ''chat'' ''message'' Null heard) =
     Some [(11, Data Null), (12, Data Null), (13, Data Null), (14, Data Null)]"
proof -
  let ?ops = "[RegisterEvent ''chat'' ''message'' 11, RegisterEvent ''chat'' ''message'' 10,
      RegisterEvent ''chat'' ''message'' 12, RegisterEvent ''chat'' ''message'' 13,
      Unregister ''chat'' ''message'' 10, RegisterEvent ''chat'' ''message'' 14,
      RegisterEvent ''chat'' ''message'' 11]"
  have h: "heard = run idle (LibrandaClient None no_options) ?ops"
    by (simp add: heard_def fresh_def)
  have r: "registered heard ''chat'' ''message'' = [11, 12, 13, 14]"
    and k: "calls heard = []" and c: "console heard = []"
    by (simp_all add: heard_def eval_defs registered_def)
  have nc: "\<not> registers_to ''chat'' ''message'' (careful 11)"
    "\<not> registers_to ''chat'' ''message'' (careful 12)"
    "\<not> registers_to ''chat'' ''message'' (careful 13)"
    "\<not> registers_to ''chat'' ''message'' (careful 14)"
    by (simp_all add: careful_def)
  have nq: "\<not> registers_to ''chat'' ''message'' (quiet 11)"
    "\<not> registers_to ''chat'' ''message'' (quiet 12)"
    "\<not> registers_to ''chat'' ''message'' (quiet 13)"
    "\<not> registers_to ''chat'' ''message'' (quiet 14)"
    by (simp_all add: quiet_def)
  have rq: "removed ''chat'' ''message'' (quiet 11) = []"
    "removed ''chat'' ''message'' (quiet 12) = []"
    "removed ''chat'' ''message'' (quiet 13) = []"
    "removed ''chat'' ''message'' (quiet 14) = []"
    by (simp_all add: quiet_def)
  have oc: "dispatch_order careful ''chat'' ''message'' [11, 12, 13, 14] = [11, 12, 14]"
    by (simp add: careful_def)
  have tc: "filter (\<lambda>f. throws (careful f)) [11, 12, 14] = [11]"
    by (simp add: careful_def)
  have fc: "filter (\<lambda>g. g \<notin> (\<Union>f \<in> set [11, 12, 14]. set (removed ''chat'' ''message'' (careful f))))
              [11, 12, 13, 14] = [11, 12]"
    by (simp add: careful_def)
  note A = dispatch_calls_registered_callbacks_in_registration_order
    [where s = heard and fs = idle and win = None and opts = no_options and ops = ?ops
       and ns = "''chat''" and ev = "''message''" and rs = careful and d = Null, OF h]
  note Q = dispatch_calls_registered_callbacks_in_registration_order
    [where s = heard and fs = idle and win = None and opts = no_options and ops = ?ops
       and ns = "''chat''" and ev = "''message''" and rs = quiet and d = Null
       and n = "''chat''" and e = "''message''" and cb = 12, OF h]
  have hc: "\<forall>f \<in> set (registered heard ''chat'' ''message''). \<not> registers_to ''chat'' ''message'' (careful f)"
    using nc by (simp add: r)
  have hq: "\<forall>f \<in> set (registered heard ''chat'' ''message''). \<not> registers_to ''chat'' ''message'' (quiet f)"
    using nq by (simp add: r)
  from A [where n = "''chat''" and e = "''message''" and cb = 12, OF hc]
  have a1: "registered (registerEvent ''chat'' ''message'' 12 heard) ''chat'' ''message'' = [11, 12, 13, 14]"
    and a3: "registered (unregister ''chat'' ''message'' 12 heard) ''chat'' ''message'' = [11, 13, 14]"
    and a5: "14 \<in> set (dispatch_order careful ''chat'' ''message'' [11, 12, 13, 14])"
    by (simp_all add: r careful_def)
  from A [where n = "''chat''" and e = "''message''" and cb = 15, OF hc]
  have a2: "registered (registerEvent ''chat'' ''message'' 15 heard) ''chat'' ''message'' = [11, 12, 13, 14, 15]"
    by (simp add: r)
  from A [where n = "''chat''" and e = "''message''" and cb = 12, OF hc]
  obtain s' where s': "handleEvent_reg careful ''chat'' ''message'' Null heard = Some s'"
    "calls s' = calls heard @ map (\<lambda>f. (f, Data Null))
        (dispatch_order careful ''chat'' ''message'' (registered heard ''chat'' ''message''))"
    "console s' = console heard @ map (\<lambda>f. HandlerError ''chat'' ''message'')
        (filter (\<lambda>f. throws (careful f))
           (dispatch_order careful ''chat'' ''message'' (registered heard ''chat'' ''message'')))"
    "registered s' ''chat'' ''message'' =
       filter (\<lambda>g. g \<notin> (\<Union>f \<in> set (dispatch_order careful ''chat'' ''message''
                                          (registered heard ''chat'' ''message'')).
                             set (removed ''chat'' ''message'' (careful f))))
         (registered heard ''chat'' ''message'')"
    by blast
  have b1: "map_option calls (handleEvent_reg careful ''chat'' ''message'' Null heard) =
     Some [(11, Data Null), (12, Data Null), (14, Data Null)]"
    using s'(1) s'(2) [unfolded r oc k] by simp
  have b2: "map_option console (handleEvent_reg careful ''chat'' ''message'' Null heard) =
     Some [HandlerError ''chat'' ''message'']"
    using s'(1) s'(3) [unfolded r oc tc c] by simp
  have b3: "registered (the (handleEvent_reg careful ''chat'' ''message'' Null heard)) ''chat'' ''message'' =
     [11, 12]"
    using s'(1) s'(4) [unfolded r oc fc] by simp
  from Q [OF hq] rq
  have oq: "dispatch_order quiet ''chat'' ''message'' (registered heard ''chat'' ''message'') =
            registered heard ''chat'' ''message''"
    by (simp add: r)
  from Q [OF hq]
  obtain t' where t': "handleEvent_reg quiet ''chat'' ''message'' Null heard = Some t'"
    "calls t' = calls heard @ map (\<lambda>f. (f, Data Null))
        (dispatch_order quiet ''chat'' ''message'' (registered heard ''chat'' ''message''))"
    by blast
  have b4: "map_option calls (handleEvent_reg quiet ''chat'' ''message'' Null heard) =
     Some [(11, Data Null), (12, Data Null), (13, Data Null), (14, Data Null)]"
    using t'(1) t'(2) [unfolded oq, unfolded r k] by simp
  show ?thesis using h r nc a1 a2 a3 b1 b2 b3 a5 rq b4 by simp
qed

subsection \<open>C7: send\<close>

text \<open>
  C7, as claimed: a call of \<open>send\<close> made while the transport is present and open writes
  exactly one serialized frame. This fails: the payload is serialized before anything is
  written, and for a payload that contains an object referring to itself the serializer
  throws. In the session \<open>looped\<close> the transport is open, \<open>send\<close> with the payload
  \<open>{node: o}\<close> fails with a TypeError, the state is as before and nothing has been written.
\<close>

theorem send_on_open_transport_can_throw_and_write_nothing:
  "ws looped = Some 0 \<and> sock_state looped 0 = OPEN \<and>
   send ''chat'' ''message'' (Some [(''node'', JRef 1)]) looped = (Some TypeError, looped) \<and>
   map sent (sockets looped) = [[]]"
proof -
  have a: "ws looped = Some 0" "sock_state looped 0 = OPEN" "map sent (sockets looped) = [[]]"
    by (simp_all add: looped_def eval_defs)
  have "stringify (frame_of ''chat'' ''message'' (Some [(''node'', JRef 1)]) looped) = Inl TypeError"
    by (simp add: looped_def eval_defs)
  with a show ?thesis by (simp add: send_def)
qed

text \<open>
  C7, amended. A call of \<open>send\<close> made while the transport is absent or not open fails with
  the error "WebSocket is not connected" and leaves the whole state as it was, so nothing
  is written to any socket. A call made while the transport is open either fails with the
  exception of the serializer, again leaving the whole state as it was, or returns normally
  and its only effect is that exactly one text, the serialized frame, is appended to what was
  written to the current socket; that frame has the properties \<open>namespace\<close>, \<open>event\<close> and
  \<open>data\<close>, with the namespace and the event of the call, and its \<open>data.metadata\<close> is the
  serialization of the metadata object at the time of the call.
\<close>

theorem send_fails_or_writes_one_serialized_frame:
  "((ws s = None \<or> (\<exists>i. ws s = Some i \<and> sock_state s i \<noteq> OPEN)) \<longrightarrow>
      send ns ev d s = (Some (Error ''WebSocket is not connected''), s)) \<and>
   (\<forall>i. ws s = Some i \<and> sock_state s i = OPEN \<longrightarrow>
      i < length (sockets s) \<and>
      (\<forall>e. stringify (frame_of ns ev d s) = Inl e \<longrightarrow> send ns ev d s = (Some e, s)) \<and>
      (\<forall>js. stringify (frame_of ns ev d s) = Inr js \<longrightarrow>
         send ns ev d s =
           (None, s\<lparr>sockets := (sockets s)[i := (sockets s ! i)
                        \<lparr>sent := sent (sockets s ! i) @ [js]\<rparr>]\<rparr>) \<and>
         (\<exists>dps m. js = JObj [(''namespace'', JStr ns), (''event'', JStr ev),
                               (''data'', JObj dps)] \<and>
                  serialize (heap s) [] (JRef (metadata s)) = Inr m \<and>
                  map_of dps ''metadata'' = Some m)))"
proof (intro conjI impI allI)
  assume "ws s = None \<or> (\<exists>i. ws s = Some i \<and> sock_state s i \<noteq> OPEN)"
  then show "send ns ev d s = (Some (Error ''WebSocket is not connected''), s)"
    by (auto simp: send_def)
next
  fix i
  assume a: "ws s = Some i \<and> sock_state s i = OPEN"
  then show l: "i < length (sockets s)"
    by (cases "i < length (sockets s)") (auto simp: sock_state_def)
  {
    fix e assume "stringify (frame_of ns ev d s) = Inl e"
    with a show "send ns ev d s = (Some e, s)" by (simp add: send_def)
  }
  {
    fix js assume js: "stringify (frame_of ns ev d s) = Inr js"
    with a l show "send ns ev d s =
           (None, s\<lparr>sockets := (sockets s)[i := (sockets s ! i)
                        \<lparr>sent := sent (sockets s ! i) @ [js]\<rparr>]\<rparr>)"
      by (simp add: send_def sock_send_def)
    from stringify_frame_of [OF js]
    show "\<exists>dps m. js = JObj [(''namespace'', JStr ns), (''event'', JStr ev),
                               (''data'', JObj dps)] \<and>
                  serialize (heap s) [] (JRef (metadata s)) = Inr m \<and>
                  map_of dps ''metadata'' = Some m" .
  }
qed

theorem send_fails_or_writes_one_serialized_frame_witness:
  "ws fresh = None \<and>
   send ''chat'' ''message'' None fresh = (Some (Error ''WebSocket is not connected''), fresh) \<and>
   ws looped = Some 0 \<and> sock_state looped 0 = OPEN \<and>
   stringify (frame_of ''chat'' ''message'' (Some [(''node'', JRef 1)]) looped) = Inl TypeError \<and>
   send ''chat'' ''message'' (Some [(''node'', JRef 1)]) looped = (Some TypeError, looped) \<and>
   ws online = Some 0 \<and> sock_state online 0 = OPEN \<and>
   fst (send ''chat'' ''message'' (Some [(''text'', JStr ''hi''), (''to'', Undefined)]) online) = None \<and>
   map sent (sockets (snd (send ''chat'' ''message''
                             (Some [(''text'', JStr ''hi''), (''to'', Undefined)]) online))) =
     [[JObj [(''namespace'', JStr ''chat''), (''event'', JStr ''message''),
             (''data'', JObj [(''text'', JStr ''hi''),
                              (''metadata'', JObj [(''a'', JObj [(''x'', JNum 1)])])])]]] \<and>
   serialize (heap online) [] (JRef (metadata online)) = Inr (JObj [(''a'', JObj [(''x'', JNum 1)])])"
proof -
  let ?d = "Some [(''text'', JStr ''hi''), (''to'', Undefined)]"
  let ?c = "Some [(''node'', JRef 1)]"
  let ?js = "JObj [(''namespace'', JStr ''chat''), (''event'', JStr ''message''),
             (''data'', JObj [(''text'', JStr ''hi''),
                              (''metadata'', JObj [(''a'', JObj [(''x'', JNum 1)])])])]"
  have w0: "ws fresh = None"
    by (simp add: fresh_def LibrandaClient_def)
  have l1: "ws looped = Some 0" and l2: "sock_state looped 0 = OPEN"
    by (simp_all add: looped_def eval_defs)
  have l3: "stringify (frame_of ''chat'' ''message'' ?c looped) = Inl TypeError"
    by (simp add: looped_def eval_defs)
  have o1: "ws online = Some 0" and o2: "sock_state online 0 = OPEN"
    and o3: "map sent (sockets online) = [[]]"
    by (simp_all add: online_def tagged_def eval_defs)
  have o4: "stringify (frame_of ''chat'' ''message'' ?d online) = Inr ?js"
    by (simp add: online_def tagged_def eval_defs)
  have o5: "serialize (heap online) [] (JRef (metadata online)) = Inr (JObj [(''a'', JObj [(''x'', JNum 1)])])"
    by (simp add: online_def tagged_def eval_defs)
  have l: "length (sockets online) = 1" using arg_cong [OF o3, of length] by simp
  from send_fails_or_writes_one_serialized_frame [of fresh "''chat''" "''message''" None] w0
  have a: "send ''chat'' ''message'' None fresh = (Some (Error ''WebSocket is not connected''), fresh)"
    by simp
  from send_fails_or_writes_one_serialized_frame [of looped "''chat''" "''message''" ?c] l1 l2 l3
  have b: "send ''chat'' ''message'' ?c looped = (Some TypeError, looped)"
    by blast
  from send_fails_or_writes_one_serialized_frame [of online "''chat''" "''message''" ?d] o1 o2 o4
  have c: "send ''chat'' ''message'' ?d online =
        (None, online\<lparr>sockets := (sockets online)[0 := (sockets online ! 0)
                     \<lparr>sent := sent (sockets online ! 0) @ [?js]\<rparr>]\<rparr>)"
    by blast
  have e: "map sent ((sockets online)[0 := (sockets online ! 0)
                     \<lparr>sent := sent (sockets online ! 0) @ [?js]\<rparr>]) = [[?js]]"
    using o3 l by (cases "sockets online") auto
  show ?thesis using w0 a l1 l2 l3 b o1 o2 c e o5 by simp
qed


subsection \<open>C8: registerPlugin rejects\<close>

text \<open>
  C8. \<open>registerPlugin\<close> fails with an error when the plugin's id is absent or empty, or
  when a plugin with that id is registered already, and in these cases the state is the
  one before the call: the plugin map is unchanged, no initializer has been called, and
  the plugins registered before are the plugins registered after.
\<close>

theorem registerPlugin_rejects_without_mutation:
  "plugin_id p = None \<or> plugin_id p = Some [] \<or>
     (\<exists>pid. plugin_id p = Some pid \<and> map_has (plugins s) pid) \<Longrightarrow>
   (\<exists>msg. registerPlugin fs p s = (Some (Error msg), s)) \<and>
   plugins (snd (registerPlugin fs p s)) = plugins s \<and>
   calls (snd (registerPlugin fs p s)) = calls s \<and>
   getPlugins (snd (registerPlugin fs p s)) = getPlugins s"
  by (cases "plugin_id p") (auto simp: registerPlugin_def)

theorem registerPlugin_rejects_without_mutation_witness:
  "fst (registerPlugin idle plugin_p fresh) = None \<and>
   map_has (plugins (snd (registerPlugin idle plugin_p fresh))) ''p'' \<and>
   fst (registerPlugin idle (plugin_p\<lparr>initialize := Some 5\<rparr>) (snd (registerPlugin idle plugin_p fresh)))
     = Some (Error ''Plugin with id p is already registered'') \<and>
   getPlugins (snd (registerPlugin idle (plugin_p\<lparr>initialize := Some 5\<rparr>)
       (snd (registerPlugin idle plugin_p fresh)))) = [plugin_p] \<and>
   calls (snd (registerPlugin idle (plugin_p\<lparr>initialize := Some 5\<rparr>)
       (snd (registerPlugin idle plugin_p fresh)))) = [(1, Api)] \<and>
   registerPlugin idle \<lparr>plugin_id = None, initialize = Some 5, cleanup = None\<rparr> fresh
     = (Some (Error ''Plugin must have an id property''), fresh) \<and>
   registerPlugin idle \<lparr>plugin_id = Some [], initialize = Some 5, cleanup = None\<rparr> fresh
     = (Some (Error ''Plugin must have an id property''), fresh)"
proof -
  let ?s1 = "snd (registerPlugin idle plugin_p fresh)"
  let ?q = "plugin_p\<lparr>initialize := Some 5\<rparr>"
  have a: "fst (registerPlugin idle plugin_p fresh) = None" by (simp add: eval_defs)
  have b: "map_has (plugins ?s1) ''p''" by (simp add: eval_defs)
  have c: "getPlugins ?s1 = [plugin_p]" by (simp add: eval_defs)
  have d: "calls ?s1 = [(1, Api)]" by (simp add: eval_defs)
  have e: "fst (registerPlugin idle ?q ?s1) = Some (Error ''Plugin with id p is already registered'')"
    by (simp add: eval_defs)
  have q: "plugin_id ?q = Some ''p''" by (simp add: plugin_p_def)
  from registerPlugin_rejects_without_mutation [of ?q ?s1 idle] q b
  have f: "calls (snd (registerPlugin idle ?q ?s1)) = calls ?s1"
    "getPlugins (snd (registerPlugin idle ?q ?s1)) = getPlugins ?s1"
    by blast+
  from registerPlugin_rejects_without_mutation
    [of "\<lparr>plugin_id = None, initialize = Some 5, cleanup = None\<rparr>" fresh idle]
  obtain m1 where g: "registerPlugin idle \<lparr>plugin_id = None, initialize = Some 5, cleanup = None\<rparr> fresh
      = (Some (Error m1), fresh)" by auto
  have g': "fst (registerPlugin idle \<lparr>plugin_id = None, initialize = Some 5, cleanup = None\<rparr> fresh)
      = Some (Error ''Plugin must have an id property'')" by (simp add: eval_defs)
  from registerPlugin_rejects_without_mutation
    [of "\<lparr>plugin_id = Some [], initialize = Some 5, cleanup = None\<rparr>" fresh idle]
  obtain m2 where h: "registerPlugin idle \<lparr>plugin_id = Some [], initialize = Some 5, cleanup = None\<rparr> fresh
      = (Some (Error m2), fresh)" by auto
  have h': "fst (registerPlugin idle \<lparr>plugin_id = Some [], initialize = Some 5, cleanup = None\<rparr> fresh)
      = Some (Error ''Plugin must have an id property'')" by (simp add: eval_defs)
  from g g' have g'': "m1 = ''Plugin must have an id property''" by simp
  from h h' have h'': "m2 = ''Plugin must have an id property''" by simp
  show ?thesis using a b c d e f g h g'' h'' by simp
qed

subsection \<open>C9: the copy returned by getMetadata\<close>

text \<open>
  C9, as stated, fails for nested values: the copy is shallow. With metadata \<open>{a: o}\<close>,
  where \<open>o = {x: 1}\<close>, the object returned by \<open>getMetadata()\<close> holds the same reference
  \<open>o\<close>; after the write \<open>copy.a.x = 2\<close> a later \<open>getMetadata().a.x\<close> is 2, and so is the
  value read through the internal metadata object.
\<close>

theorem nested_write_through_copy_changes_metadata:
  "metadata tagged = 2 \<and> heap tagged = [[], [(''x'', JNum 1)], [(''a'', JRef 1)]] \<and>
   fst (getMetadata tagged) = JRef 3 \<and>
   read_path (heap (snd (getMetadata tagged))) (fst (getMetadata tagged)) [''a''] = Inr (JRef 1) \<and>
   read_path (heap (snd (getMetadata tagged))) (fst (getMetadata tagged)) [''a'', ''x'']
     = Inr (JNum 1) \<and>
   read_path (heap (snd (getMetadata (write_prop 1 ''x'' (JNum 2) (snd (getMetadata tagged))))))
     (fst (getMetadata (write_prop 1 ''x'' (JNum 2) (snd (getMetadata tagged))))) [''a'', ''x'']
     = Inr (JNum 2) \<and>
   read_path (heap (write_prop 1 ''x'' (JNum 2) (snd (getMetadata tagged))))
     (JRef (metadata (write_prop 1 ''x'' (JNum 2) (snd (getMetadata tagged))))) [''a'', ''x'']
     = Inr (JNum 2)"
  by (simp add: tagged_def eval_defs)

text \<open>
  C9, amended. \<open>getMetadata()\<close> returns a new object with the properties of the internal
  metadata object: writing properties of the returned object, any number of times,
  changes neither the internal metadata reference, nor the internal metadata object, nor
  any other object that existed when \<open>getMetadata()\<close> was called; a later
  \<open>getMetadata()\<close> returns an object with the same properties as before, and the frame
  object built by a later \<open>send\<close> is the same. Objects nested in the metadata are shared
  with the copy.
\<close>

theorem getMetadata_returns_shallow_copy:
  assumes "s = run fs (LibrandaClient win opts) ops"
    and "s' = run fs (snd (getMetadata s)) (map (\<lambda>(k, v). WriteProp (length (heap s)) k v) kvs)"
  shows "fst (getMetadata s) = JRef (length (heap s)) \<and>
    metadata s < length (heap s) \<and>
    obj_at (heap (snd (getMetadata s))) (length (heap s)) = assign [] (obj_at (heap s) (metadata s)) \<and>
    metadata s' = metadata s \<and>
    (\<forall>a < length (heap s). obj_at (heap s') a = obj_at (heap s) a) \<and>
    obj_at (heap (snd (getMetadata s'))) (length (heap s')) = assign [] (obj_at (heap s) (metadata s)) \<and>
    fst (frame_of ns ev d s') = fst (frame_of ns ev d s)"
proof -
  from assms(1) session_ok_run [OF session_ok_new] have "session_ok s" by simp
  then have m: "metadata s < length (heap s)" by (simp add: session_ok_def)
  let ?s1 = "snd (getMetadata s)"
  have g: "metadata ?s1 = metadata s" "length (heap ?s1) = Suc (length (heap s))"
    "\<And>a. a < length (heap s) \<Longrightarrow> obj_at (heap ?s1) a = obj_at (heap s) a"
    "obj_at (heap ?s1) (length (heap s)) = assign [] (obj_at (heap s) (metadata s))"
    by (simp_all add: getMetadata_def obj_at_def nth_append)
  from writes_keep_other_objects [of fs ?s1 "length (heap s)" kvs] assms(2)
  have w: "metadata s' = metadata ?s1" "length (heap s') = length (heap ?s1)"
    "\<And>b. b \<noteq> length (heap s) \<Longrightarrow> obj_at (heap s') b = obj_at (heap ?s1) b"
    by simp_all
  have old: "\<forall>a < length (heap s). obj_at (heap s') a = obj_at (heap s) a"
    using w(3) g(3) by simp
  with m w(1) g(1) have "obj_at (heap s') (metadata s') = obj_at (heap s) (metadata s)" by simp
  then have again: "obj_at (heap (snd (getMetadata s'))) (length (heap s'))
      = assign [] (obj_at (heap s) (metadata s))"
    by (simp add: getMetadata_def obj_at_def)
  have fr: "fst (frame_of ns ev d s') = fst (frame_of ns ev d s)"
    using w(1) g(1) by (simp add: frame_of_def)
  show ?thesis using m g(4) w(1) g(1) old again fr by (simp add: getMetadata_def)
qed

theorem getMetadata_returns_shallow_copy_witness:
  "fst (getMetadata tagged) = JRef 3 \<and>
   obj_at (heap (snd (getMetadata tagged))) 3 = [(''a'', JRef 1)] \<and>
   obj_at (heap (run idle (snd (getMetadata tagged))
      [WriteProp 3 ''a'' (JNum 7), WriteProp 3 ''b'' (JStr ''new'')])) 3
     = [(''a'', JNum 7), (''b'', JStr ''new'')] \<and>
   metadata (run idle (snd (getMetadata tagged))
      [WriteProp 3 ''a'' (JNum 7), WriteProp 3 ''b'' (JStr ''new'')]) = 2 \<and>
   obj_at (heap (run idle (snd (getMetadata tagged))
      [WriteProp 3 ''a'' (JNum 7), WriteProp 3 ''b'' (JStr ''new'')])) 2 = [(''a'', JRef 1)] \<and>
   obj_at (heap (snd (getMetadata (run idle (snd (getMetadata tagged))
      [WriteProp 3 ''a'' (JNum 7), WriteProp 3 ''b'' (JStr ''new'')])))) 4 = [(''a'', JRef 1)]"
proof -
  let ?kvs = "[(''a'', JNum 7), (''b'', JStr ''new'')]"
  let ?s' = "run idle (snd (getMetadata tagged))
      [WriteProp 3 ''a'' (JNum 7), WriteProp 3 ''b'' (JStr ''new'')]"
  have t: "tagged = run idle (LibrandaClient None no_options)
      [NewObject [(''x'', JNum 1)], SetMetadata [(''a'', JRef 1)]]"
    by (simp add: tagged_def fresh_def)
  have h: "heap tagged = [[], [(''x'', JNum 1)], [(''a'', JRef 1)]]" "metadata tagged = 2"
    by (simp_all add: tagged_def eval_defs)
  have s': "?s' = run idle (snd (getMetadata tagged))
      (map (\<lambda>(k, v). WriteProp (length (heap tagged)) k v) ?kvs)"
    by (simp add: h eval_nat_numeral)
  have c: "obj_at (heap ?s') 3 = [(''a'', JNum 7), (''b'', JStr ''new'')]"
    "length (heap ?s') = 4"
    by (simp_all add: eval_defs h)
  have l: "length (heap tagged) = 3" by (simp add: h)
  have o: "assign [] (obj_at (heap tagged) (metadata tagged)) = [(''a'', JRef 1)]"
    "obj_at (heap tagged) 2 = [(''a'', JRef 1)]"
    by (simp_all add: h obj_at_def)
  from getMetadata_returns_shallow_copy [OF t s', of "''n''" "''e''" None]
  have r: "fst (getMetadata tagged) = JRef (length (heap tagged))"
    "obj_at (heap (snd (getMetadata tagged))) (length (heap tagged))
       = assign [] (obj_at (heap tagged) (metadata tagged))"
    "metadata ?s' = metadata tagged"
    "\<forall>a < length (heap tagged). obj_at (heap ?s') a = obj_at (heap tagged) a"
    "obj_at (heap (snd (getMetadata ?s'))) (length (heap ?s'))
       = assign [] (obj_at (heap tagged) (metadata tagged))"
    by blast+
  from r(4) l have "obj_at (heap ?s') 2 = obj_at (heap tagged) 2" by simp
  with r(1,2,3,5) c show ?thesis unfolding l o c(2) h(2) by simp
qed

subsection \<open>C10: \<open>system:init\<close> frames without a client id\<close>

text \<open>
  C10, as stated, fails when the pending ready callback throws: for the frame
  \<open>{namespace: "system", event: "init", data: {}}\<close> the client id becomes \<open>undefined\<close>
  and the ready callback 4 is called with \<open>undefined\<close>, but its exception is caught by
  the \<open>try\<close> block of the message handler and handler 3, registered for \<open>system:init\<close>,
  is never called.
\<close>

theorem init_without_id_not_dispatched_when_ready_throws:
  "onReady awaiting_faulty = Some 4 \<and>
   callbacks_of awaiting_faulty ''system'' ''init'' = Some [Some 3] \<and>
   calls awaiting_faulty = [] \<and>
   calls (run faulty awaiting_faulty [SockMessage 0 (Some init_without_id)])
     = [(4, Data Undefined)] \<and>
   console (run faulty awaiting_faulty [SockMessage 0 (Some init_without_id)]) = [ParseFailed] \<and>
   clientId (run faulty awaiting_faulty [SockMessage 0 (Some init_without_id)]) = Undefined"
  by (simp add: eval_defs)

text \<open>
  C10, amended. For a \<open>system:init\<close> frame whose data is present but has no \<open>clientId\<close>,
  the client id becomes \<open>undefined\<close>, a pending ready callback is called with
  \<open>undefined\<close>, and the frame is then dispatched to the handlers registered for
  \<open>system:init\<close>, unless the ready callback throws: then the exception is caught and
  logged by the message handler and the frame is not dispatched. If the data field is
  absent, reading \<open>data.clientId\<close> throws, the message handler catches and logs it, and
  nothing else happens: no callback is called and the client id is unchanged.
\<close>

theorem init_frame_without_client_id:
  "(is_init_frame (heap s) m d Undefined \<longrightarrow>
      clientId (onmessage fs (Some m) s) = Undefined \<and>
      (onReady s = None \<longrightarrow>
         onmessage fs (Some m) s =
           handleEvent fs ''system'' ''init'' d (s\<lparr>clientId := Undefined\<rparr>)) \<and>
      (\<forall>f. onReady s = Some f \<longrightarrow>
         (\<exists>rest. calls (onmessage fs (Some m) s) = calls s @ (f, Data Undefined) # rest) \<and>
         (AThrow \<notin> set (fs f) \<longrightarrow>
            onmessage fs (Some m) s =
              handleEvent fs ''system'' ''init'' d
                (snd (call fs f (Data Undefined) (s\<lparr>clientId := Undefined\<rparr>)))) \<and>
         (AThrow \<in> set (fs f) \<longrightarrow>
            onmessage fs (Some m) s =
              log ParseFailed (snd (call fs f (Data Undefined) (s\<lparr>clientId := Undefined\<rparr>)))))) \<and>
   (get_prop (heap s) m ''namespace'' = Inr (JStr ''system'') \<and>
    get_prop (heap s) m ''event'' = Inr (JStr ''init'') \<and>
    get_prop (heap s) m ''data'' = Inr Undefined \<longrightarrow>
      onmessage fs (Some m) s = log ParseFailed s)"
proof -
  have a: "clientId (onmessage fs (Some m) s) = Undefined"
    "onReady s = None \<longrightarrow>
         onmessage fs (Some m) s =
           handleEvent fs ''system'' ''init'' d (s\<lparr>clientId := Undefined\<rparr>)"
    "\<forall>f. onReady s = Some f \<longrightarrow>
         (\<exists>rest. calls (onmessage fs (Some m) s) = calls s @ (f, Data Undefined) # rest) \<and>
         (AThrow \<notin> set (fs f) \<longrightarrow>
            onmessage fs (Some m) s =
              handleEvent fs ''system'' ''init'' d
                (snd (call fs f (Data Undefined) (s\<lparr>clientId := Undefined\<rparr>)))) \<and>
         (AThrow \<in> set (fs f) \<longrightarrow>
            onmessage fs (Some m) s =
              log ParseFailed (snd (call fs f (Data Undefined) (s\<lparr>clientId := Undefined\<rparr>))))"
    if i: "is_init_frame (heap s) m d Undefined"
  proof -
    from i have g: "get_prop (heap s) m ''namespace'' = Inr (JStr ''system'')"
      "get_prop (heap s) m ''event'' = Inr (JStr ''init'')"
      "get_prop (heap s) m ''data'' = Inr d"
      "get_prop (heap s) d ''clientId'' = Inr Undefined"
      by (simp_all add: is_init_frame_def)
    from onmessage_init(4) [OF i] show "clientId (onmessage fs (Some m) s) = Undefined" .
    from onmessage_init(1) [OF i]
    show "onReady s = None \<longrightarrow>
         onmessage fs (Some m) s =
           handleEvent fs ''system'' ''init'' d (s\<lparr>clientId := Undefined\<rparr>)" by blast
    from onmessage_init(2,3) [OF i] init_frame_calls_ready [OF _ g]
    show "\<forall>f. onReady s = Some f \<longrightarrow>
         (\<exists>rest. calls (onmessage fs (Some m) s) = calls s @ (f, Data Undefined) # rest) \<and>
         (AThrow \<notin> set (fs f) \<longrightarrow>
            onmessage fs (Some m) s =
              handleEvent fs ''system'' ''init'' d
                (snd (call fs f (Data Undefined) (s\<lparr>clientId := Undefined\<rparr>)))) \<and>
         (AThrow \<in> set (fs f) \<longrightarrow>
            onmessage fs (Some m) s =
              log ParseFailed (snd (call fs f (Data Undefined) (s\<lparr>clientId := Undefined\<rparr>))))"
      by blast
  qed
  from a onmessage_init_without_data [of s m fs] show ?thesis by blast
qed

theorem init_frame_without_client_id_witness:
  "is_init_frame (heap awaiting) init_without_id (JObj []) Undefined \<and>
   onReady awaiting = Some 5 \<and> AThrow \<notin> set (faulty 5) \<and>
   callbacks_of awaiting ''system'' ''init'' = Some [Some 3] \<and>
   clientId (onmessage faulty (Some init_without_id) awaiting) = Undefined \<and>
   calls (onmessage faulty (Some init_without_id) awaiting)
     = [(5, Data Undefined), (3, Data (JObj []))] \<and>
   console (onmessage faulty (Some init_without_id) awaiting) = [] \<and>
   onReady awaiting_faulty = Some 4 \<and> AThrow \<in> set (faulty 4) \<and>
   calls (onmessage faulty (Some init_without_id) awaiting_faulty) = [(4, Data Undefined)] \<and>
   console (onmessage faulty (Some init_without_id) awaiting_faulty) = [ParseFailed] \<and>
   get_prop (heap awaiting) init_without_data ''data'' = Inr Undefined \<and>
   calls (onmessage faulty (Some init_without_data) awaiting) = [] \<and>
   console (onmessage faulty (Some init_without_data) awaiting) = [ParseFailed] \<and>
   clientId (onmessage faulty (Some init_without_data) awaiting) = Null \<and>
   onReady listening = None \<and>
   calls (onmessage faulty (Some init_without_id) listening) = [(3, Data (JObj []))] \<and>
   clientId (onmessage faulty (Some init_without_id) listening) = Undefined"
proof -
  have i: "is_init_frame (heap awaiting) init_without_id (JObj []) Undefined"
    "is_init_frame (heap awaiting_faulty) init_without_id (JObj []) Undefined"
    by (simp_all add: is_init_frame_def init_without_id_def obj_get_def)
  have a: "onReady awaiting = Some 5" "AThrow \<notin> set (faulty 5)"
    "callbacks_of awaiting ''system'' ''init'' = Some [Some 3]"
    "calls awaiting = []" "console awaiting = []" "clientId awaiting = Null"
    by (simp_all add: eval_defs)
  have b: "onReady awaiting_faulty = Some 4" "AThrow \<in> set (faulty 4)"
    "calls awaiting_faulty = []" "console awaiting_faulty = []"
    by (simp_all add: eval_defs)
  have d: "get_prop (heap awaiting) init_without_data ''namespace'' = Inr (JStr ''system'')"
    "get_prop (heap awaiting) init_without_data ''event'' = Inr (JStr ''init'')"
    "get_prop (heap awaiting) init_without_data ''data'' = Inr Undefined"
    by (simp_all add: init_without_data_def obj_get_def)
  note t1 = init_frame_without_client_id [of awaiting init_without_id "JObj []" faulty]
  note t2 = init_frame_without_client_id [of awaiting_faulty init_without_id "JObj []" faulty]
  note t3 = init_frame_without_client_id [of awaiting init_without_data _ faulty]
  from t1 i(1) a(1,2) have p1: "clientId (onmessage faulty (Some init_without_id) awaiting) = Undefined"
    "onmessage faulty (Some init_without_id) awaiting =
       handleEvent faulty ''system'' ''init'' (JObj [])
         (snd (call faulty 5 (Data Undefined) (awaiting\<lparr>clientId := Undefined\<rparr>)))"
    by blast+
  have q1: "calls (handleEvent faulty ''system'' ''init'' (JObj [])
         (snd (call faulty 5 (Data Undefined) (awaiting\<lparr>clientId := Undefined\<rparr>))))
       = [(5, Data Undefined), (3, Data (JObj []))]"
    "console (handleEvent faulty ''system'' ''init'' (JObj [])
         (snd (call faulty 5 (Data Undefined) (awaiting\<lparr>clientId := Undefined\<rparr>)))) = []"
    by (simp_all add: eval_defs)
  from t2 i(2) b(1,2) have p2: "onmessage faulty (Some init_without_id) awaiting_faulty =
      log ParseFailed (snd (call faulty 4 (Data Undefined) (awaiting_faulty\<lparr>clientId := Undefined\<rparr>)))"
    by blast
  have q2: "calls (log ParseFailed (snd (call faulty 4 (Data Undefined)
        (awaiting_faulty\<lparr>clientId := Undefined\<rparr>)))) = [(4, Data Undefined)]"
    "console (log ParseFailed (snd (call faulty 4 (Data Undefined)
        (awaiting_faulty\<lparr>clientId := Undefined\<rparr>)))) = [ParseFailed]"
    by (simp_all add: eval_defs)
  from t3 d have p3: "onmessage faulty (Some init_without_data) awaiting = log ParseFailed awaiting"
    by blast
  have il: "is_init_frame (heap listening) init_without_id (JObj []) Undefined"
    by (simp add: is_init_frame_def init_without_id_def obj_get_def)
  have l: "onReady listening = None" by (simp add: listening_def eval_defs)
  from init_frame_without_client_id [of listening init_without_id "JObj []" faulty] il l
  have p4: "clientId (onmessage faulty (Some init_without_id) listening) = Undefined"
    "onmessage faulty (Some init_without_id) listening =
       handleEvent faulty ''system'' ''init'' (JObj []) (listening\<lparr>clientId := Undefined\<rparr>)"
    by blast+
  have q4: "calls (handleEvent faulty ''system'' ''init'' (JObj [])
       (listening\<lparr>clientId := Undefined\<rparr>)) = [(3, Data (JObj []))]"
    by (simp add: listening_def eval_defs)
  show ?thesis
    using i(1) a b(1,2) d(3) p1(1) q1 q2 l p4(1) q4 by (simp add: p1(2) p2 p3 p4(2) log_def)
qed

end
